theory Spec2Isabelle
  imports Main "HOL-Library.Word"
begin

section \<open>Page cache (smartfile LRU)\<close>

text \<open>
  The Go cache keeps a doubly linked list \<open>ll\<close> (front = most recently used) and a map
  \<open>cache\<close> from key to list element. The model keeps the list, front first, and reads
  the map off the list: \<open>index_of k\<close> is the position of the element \<open>cache[k]\<close>.
  A list element is named by its position. The lazily initialised state
  (\<open>cache == nil\<close>) is the empty list. Keys are \<open>int64\<close>, bytes are \<open>8 word\<close>.
  The eviction callback acts on an environment of type \<open>'s\<close>, passed through every
  operation that can call it.
\<close>

type_synonym byte = "8 word"
type_synonym int64 = "64 word"

record item =
  bytes :: "byte list"
  dirty :: bool

record entry =
  key :: int64
  val :: item

record 's Cache =
  MaxEntries :: int
  OnEvicted :: "(int64 \<Rightarrow> item \<Rightarrow> 's \<Rightarrow> 's) option"
  ll :: "entry list"

definition NewLRU :: "int \<Rightarrow> 's Cache" where
  "NewLRU maxEntries = \<lparr>MaxEntries = maxEntries, OnEvicted = None, ll = []\<rparr>"

fun index_of :: "int64 \<Rightarrow> entry list \<Rightarrow> nat option" where
  "index_of k [] = None"
| "index_of k (e # es) = (if key e = k then Some 0 else map_option Suc (index_of k es))"

definition unlink :: "nat \<Rightarrow> 'a list \<Rightarrow> 'a list" where
  "unlink i xs = take i xs @ drop (Suc i) xs"

definition removeElement :: "'s Cache \<Rightarrow> nat \<Rightarrow> 's \<Rightarrow> 's Cache \<times> 's" where
  "removeElement c i s =
     (let kv = ll c ! i;
          c' = c\<lparr>ll := unlink i (ll c)\<rparr>
      in case OnEvicted c of
           None \<Rightarrow> (c', s)
         | Some f \<Rightarrow> (c', f (key kv) (val kv) s))"

text \<open>
  The loop of \<open>removeOldest\<close>, entered with \<open>ele\<close> at position \<open>i\<close>: it first steps
  to \<open>ele.Prev()\<close> (position \<open>i - 1\<close>, or nil at the front) and only then looks at the
  dirty flag. The result is the position of the element removed inside the loop, if any.
\<close>

fun scan :: "entry list \<Rightarrow> nat \<Rightarrow> nat option" where
  "scan xs 0 = None"
| "scan xs (Suc j) = (if \<not> dirty (val (xs ! j)) then Some j else scan xs j)"

definition removeOldest :: "'s Cache \<Rightarrow> 's \<Rightarrow> 's Cache \<times> 's" where
  "removeOldest c s =
     (if ll c = [] then (c, s)
      else let oldest = length (ll c) - 1
           in case scan (ll c) oldest of
                Some j \<Rightarrow> removeElement c j s
              | None \<Rightarrow> removeElement c oldest s)"

definition Add :: "'s Cache \<Rightarrow> int64 \<Rightarrow> item \<Rightarrow> 's \<Rightarrow> 's Cache \<times> 's" where
  "Add c k v s =
     (case index_of k (ll c) of
        Some i \<Rightarrow> (c\<lparr>ll := \<lparr>key = k, val = v\<rparr> # unlink i (ll c)\<rparr>, s)
      | None \<Rightarrow>
          let c' = c\<lparr>ll := \<lparr>key = k, val = v\<rparr> # ll c\<rparr>
          in if MaxEntries c' \<noteq> 0 \<and> int (length (ll c')) > MaxEntries c'
             then removeOldest c' s
             else (c', s))"

definition get :: "'s Cache \<Rightarrow> int64 \<Rightarrow> item option \<times> 's Cache" where
  "get c k =
     (case index_of k (ll c) of
        None \<Rightarrow> (None, c)
      | Some i \<Rightarrow> (Some (val (ll c ! i)), c\<lparr>ll := (ll c ! i) # unlink i (ll c)\<rparr>))"

definition peek :: "'s Cache \<Rightarrow> int64 \<Rightarrow> item option" where
  "peek c k = map_option (\<lambda>i. val (ll c ! i)) (index_of k (ll c))"

definition keys :: "'s Cache \<Rightarrow> int64 list" where
  "keys c = map key (rev (ll c))"

definition len :: "'s Cache \<Rightarrow> int" where
  "len c = int (length (ll c))"

text \<open>
  \<open>clear\<close> calls the callback once per entry while ranging over the Go map, whose
  iteration order is unspecified; the model takes the entries front to back.
\<close>

definition clear :: "'s Cache \<Rightarrow> 's \<Rightarrow> 's Cache \<times> 's" where
  "clear c s =
     (c\<lparr>ll := []\<rparr>,
      case OnEvicted c of
        None \<Rightarrow> s
      | Some f \<Rightarrow> fold (\<lambda>e. f (key e) (val e)) (ll c) s)"

text \<open>A sequence of \<open>Add\<close> calls, oldest call first.\<close>

fun Adds :: "'s Cache \<Rightarrow> (int64 \<times> item) list \<Rightarrow> 's \<Rightarrow> 's Cache \<times> 's" where
  "Adds c [] s = (c, s)"
| "Adds c (kv # kvs) s = (case Add c (fst kv) (snd kv) s of (c', s') \<Rightarrow> Adds c' kvs s')"

section \<open>The operating system seen by the file layer\<close>

text \<open>
  \<open>os.File\<close> and the file system are not code of this repository. They are modelled
  as a small in-memory medium. A regular file is an inode holding bytes; \<open>names\<close>
  lists the paths that lead to inodes, \<open>dirs\<close> the directories. An \<open>*os.File\<close> is
  a descriptor number bound to an inode: closing removes it from \<open>fds\<close>, so every
  holder of the same pointer sees it closed, and removing a name leaves the inode to
  the descriptors still open on it. \<open>denied\<close> lists the paths that \<open>os.OpenFile\<close>
  refuses for reasons the medium does not show (permissions, descriptor limit).
  \<open>calls\<close> is the list of calls issued so far, oldest first, which lets a statement
  say that a call did or did not happen.

  Positional reads and writes follow package \<open>os\<close>: a negative offset is refused
  first; then the bytes are moved in a loop that does not start for an empty slice, so
  such a call returns nil whatever the descriptor; otherwise a closed descriptor is an
  error, \<open>ReadAt\<close> returns \<open>EOF\<close> when it fills less than the buffer and
  \<open>WriteAt\<close> pads a gap with zero bytes. \<open>os.OpenFile\<close> is the call with
  \<open>O_RDWR|O_CREATE\<close>; \<open>os.Remove\<close> unlinks a file or removes an empty directory.
  Paths are taken without leading or trailing separators.
\<close>

datatype error =
    ErrClosed | ErrNegativeOffset | EOF | ErrNotExist | ErrPermission | ErrIsDir | ErrNotEmpty
  | ErrExternal string

datatype oscall =
    OpenFile_call string
  | ReadAt_call nat int64 nat
  | WriteAt_call nat int64 "byte list"
  | Close_call nat
  | Remove_call string

record world =
  names :: "(string \<times> nat) list"
  inodes :: "nat \<rightharpoonup> byte list"
  dirs :: "string list"
  denied :: "string \<Rightarrow> bool"
  fds :: "nat \<rightharpoonup> nat"
  nextfd :: nat
  nextino :: nat
  calls :: "oscall list"

text \<open>The regular files of the medium, by path.\<close>

definition files :: "world \<Rightarrow> string \<rightharpoonup> byte list" where
  "files w p = (case map_of (names w) p of None \<Rightarrow> None | Some i \<Rightarrow> inodes w i)"

text \<open>\<open>filepath.Dir\<close>: what precedes the last separator, \<open>.\<close> when there is none.\<close>

definition dirname :: "string \<Rightarrow> string" where
  "dirname p =
     (if CHR ''/'' \<in> set p then rev (tl (dropWhile (\<lambda>c. c \<noteq> CHR ''/'') (rev p))) else ''.'')"

definition os_OpenFile :: "string \<Rightarrow> world \<Rightarrow> (error + nat) \<times> world" where
  "os_OpenFile p w =
     (let w1 = w\<lparr>calls := calls w @ [OpenFile_call p]\<rparr>
      in if denied w p then (Inl ErrPermission, w1)
         else if p \<in> set (dirs w) then (Inl ErrIsDir, w1)
         else (case map_of (names w) p of
                 Some i \<Rightarrow>
                   (Inr (nextfd w), w1\<lparr>fds := (fds w)(nextfd w \<mapsto> i), nextfd := Suc (nextfd w)\<rparr>)
               | None \<Rightarrow>
                   if dirname p \<in> set (dirs w)
                   then (Inr (nextfd w),
                         w1\<lparr>names := (p, nextino w) # names w,
                             inodes := (inodes w)(nextino w \<mapsto> []),
                             nextino := Suc (nextino w),
                             fds := (fds w)(nextfd w \<mapsto> nextino w),
                             nextfd := Suc (nextfd w)\<rparr>)
                   else (Inl ErrNotExist, w1)))"

definition os_ReadAt :: "nat \<Rightarrow> byte list \<Rightarrow> int64 \<Rightarrow> world \<Rightarrow> (byte list \<times> error option) \<times> world" where
  "os_ReadAt fd buf off w =
     (let w1 = w\<lparr>calls := calls w @ [ReadAt_call fd off (length buf)]\<rparr>
      in if sint off < 0 then ((buf, Some ErrNegativeOffset), w1)
         else if buf = [] then ((buf, None), w1)
         else (case fds w fd of
                 None \<Rightarrow> ((buf, Some ErrClosed), w1)
               | Some i \<Rightarrow>
                   (case inodes w i of
                      None \<Rightarrow> ((buf, Some ErrClosed), w1)
                    | Some content \<Rightarrow>
                        let chunk = take (length buf) (drop (nat (sint off)) content)
                        in ((chunk @ drop (length chunk) buf,
                             if length chunk < length buf then Some EOF else None), w1))))"

definition write_at :: "byte list \<Rightarrow> nat \<Rightarrow> byte list \<Rightarrow> byte list" where
  "write_at content off b =
     (if b = [] then content
      else let padded = content @ replicate (off - length content) 0
           in take off padded @ b @ drop (off + length b) padded)"

definition os_WriteAt :: "nat \<Rightarrow> byte list \<Rightarrow> int64 \<Rightarrow> world \<Rightarrow> error option \<times> world" where
  "os_WriteAt fd b off w =
     (let w1 = w\<lparr>calls := calls w @ [WriteAt_call fd off b]\<rparr>
      in if sint off < 0 then (Some ErrNegativeOffset, w1)
         else if b = [] then (None, w1)
         else (case fds w fd of
                 None \<Rightarrow> (Some ErrClosed, w1)
               | Some i \<Rightarrow>
                   (case inodes w i of
                      None \<Rightarrow> (Some ErrClosed, w1)
                    | Some content \<Rightarrow>
                        (None, w1\<lparr>inodes := (inodes w)(i \<mapsto> write_at content (nat (sint off)) b)\<rparr>))))"

definition os_Close :: "nat \<Rightarrow> world \<Rightarrow> error option \<times> world" where
  "os_Close fd w =
     (let w1 = w\<lparr>calls := calls w @ [Close_call fd]\<rparr>
      in case fds w fd of
           None \<Rightarrow> (Some ErrClosed, w1)
         | Some i \<Rightarrow> (None, w1\<lparr>fds := (fds w)(fd := None)\<rparr>))"

definition os_Remove :: "string \<Rightarrow> world \<Rightarrow> error option \<times> world" where
  "os_Remove p w =
     (let w1 = w\<lparr>calls := calls w @ [Remove_call p]\<rparr>
      in case map_of (names w) p of
           Some i \<Rightarrow> (None, w1\<lparr>names := filter (\<lambda>e. fst e \<noteq> p) (names w)\<rparr>)
         | None \<Rightarrow>
             if p \<in> set (dirs w)
             then (if p \<in> set (map (\<lambda>e. dirname (fst e)) (names w) @ map dirname (dirs w))
                   then (Some ErrNotEmpty, w1)
                   else (None, w1\<lparr>dirs := filter (\<lambda>d. d \<noteq> p) (dirs w)\<rparr>))
             else (Some ErrNotExist, w1))"

text \<open>\<open>Stat\<close> on a descriptor and the size it reports; a closed descriptor is an error.\<close>

definition os_Stat :: "nat \<Rightarrow> world \<Rightarrow> error + nat" where
  "os_Stat fd w =
     (case fds w fd of
        None \<Rightarrow> Inl ErrClosed
      | Some i \<Rightarrow> (case inodes w i of None \<Rightarrow> Inl ErrClosed | Some b \<Rightarrow> Inr (length b)))"

section \<open>Random-access file (smartfile.File)\<close>

text \<open>
  A Go panic (nil dereference, integer division by zero) ends the call without a
  result: \<open>Panic\<close>. \<open>uint\<close> is taken as 64 bits wide, \<open>int(size)\<close> reads the same
  bits as a signed number.
\<close>

datatype 'a outcome = Done 'a | Panic

record File =
  id_F :: string
  file_F :: nat
  queue :: "world Cache"
  size_F :: "64 word"
  ops :: "64 word"

text \<open>The closure installed by \<open>NewFile\<close>: \<open>fq.file.WriteAt(v.bytes, k)\<close>, result dropped.\<close>

definition write_back :: "nat \<Rightarrow> int64 \<Rightarrow> item \<Rightarrow> world \<Rightarrow> world" where
  "write_back fd k v w = snd (os_WriteAt fd (bytes v) k w)"

definition NewFile :: "string \<Rightarrow> 64 word \<Rightarrow> world \<Rightarrow> (error + File) \<times> world" where
  "NewFile i sz w =
     (case os_OpenFile i w of
        (Inl err, w') \<Rightarrow> (Inl err, w')
      | (Inr fd, w') \<Rightarrow>
          (Inr \<lparr>id_F = i, file_F = fd,
                queue = (NewLRU (sint sz))\<lparr>OnEvicted := Some (write_back fd)\<rparr>,
                size_F = sz, ops = 0\<rparr>, w'))"

text \<open>
  \<open>Read\<close> returns the file, the caller's buffer as it is after the call, the error
  value and the world. On a hit with a cached page at least as long as the buffer the
  loop overwrites the whole buffer with the page's leading bytes. The Go cache keeps
  the caller's slice itself; the model keeps its contents at the time of the call,
  which is what a later call finds as long as the caller leaves the slice alone.
\<close>

definition Read :: "File \<Rightarrow> byte list \<Rightarrow> int64 \<Rightarrow> world \<Rightarrow> File \<times> byte list \<times> error option \<times> world" where
  "Read fq data offset w =
     (case get (queue fq) offset of
        (Some v, q) \<Rightarrow>
          (fq\<lparr>queue := q\<rparr>,
           if length (bytes v) \<ge> length data then take (length data) (bytes v) else data,
           None, w)
      | (None, q) \<Rightarrow>
          (case os_ReadAt (file_F fq) data offset w of
             ((data', err), w') \<Rightarrow>
               if err = None then (fq\<lparr>queue := q\<rparr>, data', err, w')
               else (case Add q offset \<lparr>bytes = data', dirty = False\<rparr> w' of
                       (q', w'') \<Rightarrow> (fq\<lparr>queue := q'\<rparr>, data', None, w''))))"

fun Flush_loop :: "nat \<Rightarrow> int64 list \<Rightarrow> world Cache \<Rightarrow> world \<Rightarrow> (world Cache \<times> error option \<times> world) outcome" where
  "Flush_loop fd [] q w = Done (q, None, w)"
| "Flush_loop fd (k # ks) q w =
     (case index_of k (ll q) of
        None \<Rightarrow> Panic
      | Some i \<Rightarrow>
          let e = ll q ! i;
              q' = q\<lparr>ll := (ll q)[i := e\<lparr>val := (val e)\<lparr>dirty := False\<rparr>\<rparr>]\<rparr>
          in if dirty (val e)
             then (case os_WriteAt fd (bytes (val e)) k w of
                     (Some err, w') \<Rightarrow> Done (q, Some err, w')
                   | (None, w') \<Rightarrow> Flush_loop fd ks q' w')
             else Flush_loop fd ks q' w)"

definition Flush :: "File \<Rightarrow> world \<Rightarrow> (File \<times> error option \<times> world) outcome" where
  "Flush fq w =
     (case Flush_loop (file_F fq) (keys (queue fq)) (queue fq) w of
        Panic \<Rightarrow> Panic
      | Done (q, err, w') \<Rightarrow> Done (fq\<lparr>queue := q\<rparr>, err, w'))"

definition Write :: "File \<Rightarrow> byte list \<Rightarrow> int64 \<Rightarrow> world \<Rightarrow> (File \<times> world) outcome" where
  "Write fq data offset w =
     (let fq1 = fq\<lparr>ops := ops fq + 1\<rparr>
      in case Add (queue fq1) offset \<lparr>bytes = data, dirty = True\<rparr> w of
           (q, w1) \<Rightarrow>
             let fq2 = fq1\<lparr>queue := q\<rparr>
             in if size_F fq2 = 0 then Panic
                else if ops fq2 mod size_F fq2 = 0
                then (case Flush fq2 w1 of
                        Panic \<Rightarrow> Panic
                      | Done (fq3, err, w2) \<Rightarrow> Done (fq3, w2))
                else Done (fq2, w1))"

definition Clear :: "File \<Rightarrow> world \<Rightarrow> (File \<times> world) outcome" where
  "Clear fq w =
     (case Flush fq w of
        Panic \<Rightarrow> Panic
      | Done (fq1, err, w1) \<Rightarrow>
          (case clear (queue fq1) w1 of
             (q, w2) \<Rightarrow> Done (fq1\<lparr>queue := q, ops := 0\<rparr>, w2)))"

definition Purge :: "File \<Rightarrow> world \<Rightarrow> File \<times> world" where
  "Purge fq w =
     (case os_Close (file_F fq) w of
        (err, w1) \<Rightarrow>
          (case clear (queue fq) w1 of
             (q, w2) \<Rightarrow> (fq\<lparr>queue := q, ops := 0\<rparr>, w2)))"

text \<open>
  \<open>GetSize\<close> drops the error of \<open>Stat\<close>; when \<open>Stat\<close> fails, \<open>stat\<close> is nil and
  \<open>stat.Size()\<close> panics.
\<close>

definition GetSize :: "File \<Rightarrow> world \<Rightarrow> int64 outcome" where
  "GetSize fq w =
     (case os_Stat (file_F fq) w of
        Inl err \<Rightarrow> Panic
      | Inr n \<Rightarrow> Done (of_nat n))"

section \<open>Object registry (storage.ManagerStruct)\<close>

text \<open>
  Modelled from the spec: the declaration of \<open>ManagerStruct\<close> and the container type
  behind \<open>m.cache\<close> (its \<open>Get\<close> and \<open>Add\<close>) are not among the source files. The spec describes
  the registry as an association from object identifier to Random-Access File, itself
  subject to an LRU bound, whose eviction does not flush or close. It is modelled as
  an association list, most recently used first, with a bound on its length.
  The registry holds pointers to files: a change made to a file obtained from it is
  written back to its entry with \<open>reg_store\<close>.
\<close>

type_synonym registry = "(string \<times> File) list"

definition reg_Get :: "registry \<Rightarrow> string \<Rightarrow> File option \<times> registry" where
  "reg_Get r i =
     (case map_of r i of
        None \<Rightarrow> (None, r)
      | Some f \<Rightarrow> (Some f, (i, f) # filter (\<lambda>e. fst e \<noteq> i) r))"

definition reg_Add :: "nat \<Rightarrow> registry \<Rightarrow> string \<Rightarrow> File \<Rightarrow> registry" where
  "reg_Add bound r i f = take bound ((i, f) # filter (\<lambda>e. fst e \<noteq> i) r)"

definition reg_store :: "registry \<Rightarrow> string \<Rightarrow> File \<Rightarrow> registry" where
  "reg_store r i f = map (\<lambda>e. if fst e = i then (i, f) else e) r"

text \<open>
  \<open>dataPath\<close> is a package variable declared in another file; it is kept with the
  manager. \<open>filepath.Join\<close> is taken on identifiers without separators or dots.
\<close>

record ManagerStruct =
  cache_M :: registry
  bound_M :: nat
  dataPath :: string

definition filepath_Join :: "string \<Rightarrow> string \<Rightarrow> string" where
  "filepath_Join a b = (if b = [] then a else a @ ''/'' @ b)"

type_synonym storage = "ManagerStruct \<times> world"

definition Create :: "string \<Rightarrow> storage \<Rightarrow> error option \<times> storage" where
  "Create i st =
     (case st of (m, w) \<Rightarrow>
        (case NewFile (filepath_Join (dataPath m) i) 100000 w of
           (Inl err, w') \<Rightarrow> (Some err, (m, w'))
         | (Inr sf, w') \<Rightarrow> (None, (m\<lparr>cache_M := reg_Add (bound_M m) (cache_M m) i sf\<rparr>, w'))))"

text \<open>\<open>getFileFromCache\<close> returns the file pointer (\<open>None\<close> is nil) and the error.\<close>

definition getFileFromCache :: "string \<Rightarrow> storage \<Rightarrow> (File option \<times> error option) \<times> storage" where
  "getFileFromCache i st =
     (case st of (m, w) \<Rightarrow>
        (case reg_Get (cache_M m) i of
           (Some f, r) \<Rightarrow> ((Some f, None), (m\<lparr>cache_M := r\<rparr>, w))
         | (None, r) \<Rightarrow>
             (case NewFile (filepath_Join (dataPath m) i) 100000 w of
                (Inr sf, w') \<Rightarrow>
                  ((Some sf, None), (m\<lparr>cache_M := reg_Add (bound_M m) r i sf\<rparr>, w'))
              | (Inl err, w') \<Rightarrow> ((None, Some err), (m\<lparr>cache_M := r\<rparr>, w')))))"

text \<open>\<open>SaveData\<close> calls \<open>f.Write\<close> before it looks at \<open>err\<close>; on a nil \<open>f\<close> that panics.\<close>

definition SaveData :: "string \<Rightarrow> byte list \<Rightarrow> int64 \<Rightarrow> storage \<Rightarrow> (error option \<times> storage) outcome" where
  "SaveData i data offset st =
     (case getFileFromCache i st of
        ((None, err), st') \<Rightarrow> Panic
      | ((Some f, err), (m, w)) \<Rightarrow>
          (case Write f data offset w of
             Panic \<Rightarrow> Panic
           | Done (f', w') \<Rightarrow> Done (err, (m\<lparr>cache_M := reg_store (cache_M m) i f'\<rparr>, w'))))"

definition DeleteData :: "string \<Rightarrow> storage \<Rightarrow> error option \<times> storage" where
  "DeleteData i st =
     (case st of (m, w) \<Rightarrow>
        (case reg_Get (cache_M m) i of
           (Some f, r) \<Rightarrow>
             (case Purge f w of
                (f', w1) \<Rightarrow>
                  (case os_Remove (filepath_Join (dataPath m) i) w1 of
                     (err, w2) \<Rightarrow> (err, (m\<lparr>cache_M := reg_store r i f'\<rparr>, w2))))
         | (None, r) \<Rightarrow>
             (case os_Remove (filepath_Join (dataPath m) i) w of
                (err, w2) \<Rightarrow> (err, (m\<lparr>cache_M := r\<rparr>, w2)))))"

definition FlushData :: "string \<Rightarrow> storage \<Rightarrow> (error option \<times> storage) outcome" where
  "FlushData i st =
     (case getFileFromCache i st of
        ((None, err), st') \<Rightarrow> Panic
      | ((Some f, err), (m, w)) \<Rightarrow>
          (case Flush f w of
             Panic \<Rightarrow> Panic
           | Done (f', e, w') \<Rightarrow> Done (None, (m\<lparr>cache_M := reg_store (cache_M m) i f'\<rparr>, w'))))"

text \<open>
  \<open>LoadData\<close> returns on the open error before it touches the file.
  \<open>make([]byte, length)\<close> panics on a negative length and on one beyond the largest
  allocation, \<open>maxAlloc\<close>, which is \<open>2 ^ 48\<close> bytes on a 64-bit platform.
\<close>

definition maxAlloc :: int where
  "maxAlloc = 2 ^ 48"

definition LoadData :: "string \<Rightarrow> int64 \<Rightarrow> int64 \<Rightarrow> storage \<Rightarrow> ((error + byte list) \<times> storage) outcome" where
  "LoadData i offset length0 st =
     (case getFileFromCache i st of
        ((sf, Some err), st') \<Rightarrow> Done (Inl err, st')
      | ((None, None), st') \<Rightarrow> Panic
      | ((Some sf, None), (m, w)) \<Rightarrow>
          (case (if length0 = 0 then GetSize sf w else Done length0) of
             Panic \<Rightarrow> Panic
           | Done n \<Rightarrow>
               if sint n < 0 \<or> maxAlloc < sint n then Panic
               else (case Read sf (replicate (nat (sint n)) 0) offset w of
                       (sf', data, err, w') \<Rightarrow>
                         (case err of
                            Some e \<Rightarrow> Done (Inl e, (m\<lparr>cache_M := reg_store (cache_M m) i sf'\<rparr>, w'))
                          | None \<Rightarrow> Done (Inr data, (m\<lparr>cache_M := reg_store (cache_M m) i sf'\<rparr>, w'))))))"

section \<open>Persistence proxy (sketches.SketchProxy)\<close>

text \<open>
  The sketch behind \<open>abstract.Sketch\<close>, the configuration, \<open>json.Marshal\<close> and the
  manager returned by \<open>storage.Manager()\<close> are reached through interfaces and
  accessors declared in other packages; they are parameters, collected in one record.
  \<open>ManagerStruct.SaveData\<close> above is the function the repository puts behind
  \<open>SaveData_m\<close>. The registry state is of type \<open>'m\<close>; errors printed by the logger
  are appended to \<open>logged\<close>. The lock is not modelled: calls run one after the other.
  \<open>Properties\<close> holds counters, taken as natural numbers. \<open>NewSketch\<close> stands for
  the constructors chosen by the switch on \<open>info.Type\<close>: \<open>None\<close> is its default
  branch (no such type), otherwise the constructor's error or the sketch together with
  the \<open>Info\<close> the constructor may have completed.
\<close>

record Info =
  ID :: string
  Type_I :: string
  Properties :: "string \<Rightarrow> nat"

record 'sk SketchProxy =
  info :: Info
  sketch :: 'sk
  ops_sp :: "64 word"
  dirty_sp :: bool

record ('sk, 'm) collaborators =
  AddMultiple :: "'sk \<Rightarrow> byte list list \<Rightarrow> 'sk \<times> bool \<times> error option"
  RemoveMultiple :: "'sk \<Rightarrow> byte list list \<Rightarrow> 'sk \<times> bool \<times> error option"
  Marshal :: "'sk \<Rightarrow> byte list \<times> error option"
  SaveThresholdOps :: "64 word"
  json_Marshal :: "Info \<Rightarrow> byte list"
  NewSketch :: "Info \<Rightarrow> (error + 'sk \<times> Info) option"
  Create_m :: "string \<Rightarrow> 'm \<Rightarrow> error option \<times> 'm"
  SaveData_m :: "string \<Rightarrow> byte list \<Rightarrow> int64 \<Rightarrow> 'm \<Rightarrow> (error option \<times> 'm) outcome"
  SaveInfo_m :: "string \<Rightarrow> byte list \<Rightarrow> 'm \<Rightarrow> error option \<times> 'm"

record 'm env =
  registry_e :: 'm
  logged :: "error list"

definition log_err :: "error option \<Rightarrow> 'm env \<Rightarrow> 'm env" where
  "log_err err e = (case err of None \<Rightarrow> e | Some x \<Rightarrow> e\<lparr>logged := logged e @ [x]\<rparr>)"

text \<open>
  \<open>save\<close>: the remainder \<open>sp.ops % SaveThresholdOps\<close> is computed before \<open>force\<close> is
  looked at, so a zero threshold panics.
\<close>

definition save :: "('sk, 'm) collaborators \<Rightarrow> 'sk SketchProxy \<Rightarrow> bool \<Rightarrow> 'm env \<Rightarrow> ('sk SketchProxy \<times> 'm env) outcome" where
  "save d sp force e =
     (if \<not> dirty_sp sp then Done (sp, e)
      else if SaveThresholdOps d = 0 then Panic
      else if ops_sp sp mod SaveThresholdOps d = 0 \<or> force
      then (let sp1 = sp\<lparr>ops_sp := ops_sp sp + 1, dirty_sp := False\<rparr>
            in case Marshal d (sketch sp1) of
                 (serialized, err1) \<Rightarrow>
                   let e1 = log_err err1 e
                   in case SaveData_m d (ID (info sp1)) serialized 0 (registry_e e1) of
                        Panic \<Rightarrow> Panic
                      | Done (err2, m2) \<Rightarrow>
                          let e2 = log_err err2 (e1\<lparr>registry_e := m2\<rparr>)
                          in case SaveInfo_m d (ID (info sp1)) (json_Marshal d (info sp1)) (registry_e e2) of
                               (err3, m3) \<Rightarrow> Done (sp1, log_err err3 (e2\<lparr>registry_e := m3\<rparr>)))
      else Done (sp, e))"

text \<open>
  \<open>createSketch\<close>, without the background \<open>autosave\<close> task it starts: the proxy is
  built with counter 0 and dirty, and saved with \<open>force\<close>.
\<close>

definition createSketch :: "('sk, 'm) collaborators \<Rightarrow> Info \<Rightarrow> 'm env \<Rightarrow> ((error + 'sk SketchProxy) \<times> 'm env) outcome" where
  "createSketch d i e =
     (case Create_m d (ID i) (registry_e e) of
        (Some err, m1) \<Rightarrow> Done (Inl (ErrExternal ''Error creating new sketch''), e\<lparr>registry_e := m1\<rparr>)
      | (None, m1) \<Rightarrow>
          (case NewSketch d i of
             None \<Rightarrow> Done (Inl (ErrExternal (''Invalid sketch type: '' @ Type_I i)), e\<lparr>registry_e := m1\<rparr>)
           | Some (Inl err) \<Rightarrow> Done (Inl (ErrExternal ''Error creating new sketch''), e\<lparr>registry_e := m1\<rparr>)
           | Some (Inr (sk, i')) \<Rightarrow>
               (case Create_m d (ID i') m1 of
                  (Some err, m2) \<Rightarrow> Done (Inl err, e\<lparr>registry_e := m2\<rparr>)
                | (None, m2) \<Rightarrow>
                    (case save d \<lparr>info = i', sketch = sk, ops_sp = 0, dirty_sp = True\<rparr> True
                            (e\<lparr>registry_e := m2\<rparr>) of
                       Panic \<Rightarrow> Panic
                     | Done (sp, e') \<Rightarrow> Done (Inr sp, e')))))"

definition bump :: "string \<Rightarrow> Info \<Rightarrow> Info" where
  "bump c i = i\<lparr>Properties := (Properties i)(c := Properties i c + 1)\<rparr>"

text \<open>
  \<open>Add\<close> and \<open>Remove\<close> of the proxy: the return expression is evaluated first, the
  deferred \<open>save(false)\<close> runs after it, and a panic in it replaces the result.
\<close>

definition SketchProxy_Add ::
  "('sk, 'm) collaborators \<Rightarrow> 'sk SketchProxy \<Rightarrow> byte list list \<Rightarrow> 'm env
     \<Rightarrow> ((bool \<times> error option) \<times> 'sk SketchProxy \<times> 'm env) outcome" where
  "SketchProxy_Add d sp values e =
     (let sp1 = sp\<lparr>ops_sp := ops_sp sp + 1, info := bump ''adds'' (info sp), dirty_sp := True\<rparr>
      in case AddMultiple d (sketch sp1) values of
           (sk, res) \<Rightarrow>
             (case save d (sp1\<lparr>sketch := sk\<rparr>) False e of
                Panic \<Rightarrow> Panic
              | Done (sp2, e') \<Rightarrow> Done (res, sp2, e')))"

definition SketchProxy_Remove ::
  "('sk, 'm) collaborators \<Rightarrow> 'sk SketchProxy \<Rightarrow> byte list list \<Rightarrow> 'm env
     \<Rightarrow> ((bool \<times> error option) \<times> 'sk SketchProxy \<times> 'm env) outcome" where
  "SketchProxy_Remove d sp values e =
     (let sp1 = sp\<lparr>info := bump ''remove'' (info sp), ops_sp := ops_sp sp + 1, dirty_sp := True\<rparr>
      in case RemoveMultiple d (sketch sp1) values of
           (sk, res) \<Rightarrow>
             (case save d (sp1\<lparr>sketch := sk\<rparr>) False e of
                Panic \<Rightarrow> Panic
              | Done (sp2, e') \<Rightarrow> Done (res, sp2, e')))"

text \<open>A mutation is an \<open>Add\<close> or a \<open>Remove\<close>; \<open>mutations\<close> runs a sequence of them.\<close>

datatype mutation = Add_op "byte list list" | Remove_op "byte list list"

definition mutate ::
  "('sk, 'm) collaborators \<Rightarrow> 'sk SketchProxy \<Rightarrow> mutation \<Rightarrow> 'm env
     \<Rightarrow> ((bool \<times> error option) \<times> 'sk SketchProxy \<times> 'm env) outcome" where
  "mutate d sp mu e =
     (case mu of
        Add_op values \<Rightarrow> SketchProxy_Add d sp values e
      | Remove_op values \<Rightarrow> SketchProxy_Remove d sp values e)"

fun mutations ::
  "('sk, 'm) collaborators \<Rightarrow> 'sk SketchProxy \<Rightarrow> mutation list \<Rightarrow> 'm env
     \<Rightarrow> ('sk SketchProxy \<times> 'm env) outcome" where
  "mutations d sp [] e = Done (sp, e)"
| "mutations d sp (mu # mus) e =
     (case mutate d sp mu e of
        Panic \<Rightarrow> Panic
      | Done (res, sp', e') \<Rightarrow> mutations d sp' mus e')"

text \<open>
  The proxy after the statements of a mutation that come before the deferred save, and
  after a sequence of mutations none of which saved.
\<close>

definition touched :: "('sk, 'm) collaborators \<Rightarrow> 'sk SketchProxy \<Rightarrow> mutation \<Rightarrow> 'sk SketchProxy" where
  "touched d sp mu =
     (case mu of
        Add_op vs \<Rightarrow>
          sp\<lparr>ops_sp := ops_sp sp + 1, info := bump ''adds'' (info sp), dirty_sp := True,
             sketch := fst (AddMultiple d (sketch sp) vs)\<rparr>
      | Remove_op vs \<Rightarrow>
          sp\<lparr>info := bump ''remove'' (info sp), ops_sp := ops_sp sp + 1, dirty_sp := True,
             sketch := fst (RemoveMultiple d (sketch sp) vs)\<rparr>)"

fun applied :: "('sk, 'm) collaborators \<Rightarrow> 'sk SketchProxy \<Rightarrow> mutation list \<Rightarrow> 'sk SketchProxy" where
  "applied d sp [] = sp"
| "applied d sp (mu # mus) = applied d (touched d sp mu) mus"

text \<open>
  Following the spec's words for a save that is carried out (section 4.4): serialize
  the sketch, write the serialized bytes and the object's metadata to the Registry;
  errors are logged. \<open>spec_persist\<close> is the environment after that: the registry as
  \<open>SaveData\<close> at offset 0 and then \<open>SaveInfo\<close> leave it, and the log with the errors
  of the three steps. \<open>spec_saved\<close> adds the proxy: Clean, and its counter one higher,
  as the code leaves it. Neither is defined from \<open>save\<close>.
\<close>

definition errs :: "error option \<Rightarrow> error list" where
  "errs x = (case x of None \<Rightarrow> [] | Some err \<Rightarrow> [err])"

definition spec_persist :: "('sk, 'm) collaborators \<Rightarrow> 'sk SketchProxy \<Rightarrow> 'm env \<Rightarrow> 'm env outcome" where
  "spec_persist d sp e =
     (case Marshal d (sketch sp) of
        (serialized, err1) \<Rightarrow>
          (case SaveData_m d (ID (info sp)) serialized 0 (registry_e e) of
             Panic \<Rightarrow> Panic
           | Done (err2, m2) \<Rightarrow>
               (case SaveInfo_m d (ID (info sp)) (json_Marshal d (info sp)) m2 of
                  (err3, m3) \<Rightarrow>
                    Done \<lparr>registry_e = m3, logged = logged e @ errs err1 @ errs err2 @ errs err3\<rparr>)))"

definition spec_saved :: "('sk, 'm) collaborators \<Rightarrow> 'sk SketchProxy \<Rightarrow> 'm env \<Rightarrow> ('sk SketchProxy \<times> 'm env) outcome" where
  "spec_saved d sp e =
     (case spec_persist d sp e of
        Panic \<Rightarrow> Panic
      | Done e' \<Rightarrow> Done (sp\<lparr>ops_sp := ops_sp sp + 1, dirty_sp := False\<rparr>, e'))"

section \<open>Concrete states used in the examples\<close>

text \<open>
  A medium holding the directory \<open>data\<close> with the three-byte file \<open>data/x\<close>, the
  same medium with every open refused, and an empty registry over that directory.
\<close>

definition clean_page :: item where
  "clean_page = \<lparr>bytes = [], dirty = False\<rparr>"

definition dirty_page :: item where
  "dirty_page = \<lparr>bytes = [], dirty = True\<rparr>"

definition kvs_ex :: "(int64 \<times> item) list" where
  "kvs_ex = [(0, clean_page), (1, dirty_page), (2, dirty_page)]"

definition count_evictions :: "int64 \<Rightarrow> item \<Rightarrow> nat \<Rightarrow> nat" where
  "count_evictions k v n = Suc n"

definition w_ex :: world where
  "w_ex = \<lparr>names = [(''data/x'', 1)], inodes = [1 \<mapsto> [1, 2, 3]], dirs = [''data''],
           denied = (\<lambda>p. False), fds = Map.empty, nextfd = 3, nextino = 2, calls = []\<rparr>"

definition w_denied :: world where
  "w_denied = w_ex\<lparr>denied := (\<lambda>p. True)\<rparr>"

definition m_ex :: ManagerStruct where
  "m_ex = \<lparr>cache_M = [], bound_M = 8, dataPath = ''data''\<rparr>"

text \<open>The file and the medium that \<open>NewFile ''data/x'' 100000\<close> produces on \<open>w_ex\<close>.\<close>

definition fq_ex :: File where
  "fq_ex = \<lparr>id_F = ''data/x'', file_F = 3,
            queue = \<lparr>MaxEntries = 100000, OnEvicted = Some (write_back 3), ll = []\<rparr>,
            size_F = 100000, ops = 0\<rparr>"

definition w_open :: world where
  "w_open = w_ex\<lparr>fds := [3 \<mapsto> 1], nextfd := 4, calls := [OpenFile_call ''data/x'']\<rparr>"

definition m_open :: ManagerStruct where
  "m_open = m_ex\<lparr>cache_M := [(''x'', fq_ex)]\<rparr>"

text \<open>After \<open>Write [9] 0\<close>: one dirty page at offset 0. After a flush: the page is clean.\<close>

definition fq_short :: File where
  "fq_short = fq_ex\<lparr>queue := (queue fq_ex)\<lparr>ll := [\<lparr>key = 0, val = \<lparr>bytes = [9], dirty = True\<rparr>\<rparr>]\<rparr>,
                    ops := 1\<rparr>"

definition m_dirty :: ManagerStruct where
  "m_dirty = m_ex\<lparr>cache_M := [(''x'', fq_short)]\<rparr>"

definition fq_flushed :: File where
  "fq_flushed = fq_ex\<lparr>queue := (queue fq_ex)\<lparr>ll := [\<lparr>key = 0, val = \<lparr>bytes = [9], dirty = False\<rparr>\<rparr>]\<rparr>,
                      ops := 1\<rparr>"

definition w_flushed :: world where
  "w_flushed = w_open\<lparr>inodes := [1 \<mapsto> [9, 2, 3]],
                     calls := [OpenFile_call ''data/x'', WriteAt_call 3 0 [9]]\<rparr>"

text \<open>After \<open>Write [7] (-1)\<close>: one dirty page at a negative offset, which no write accepts.\<close>

definition fq_neg :: File where
  "fq_neg = fq_ex\<lparr>queue := (queue fq_ex)\<lparr>ll := [\<lparr>key = - 1, val = \<lparr>bytes = [7], dirty = True\<rparr>\<rparr>]\<rparr>,
                  ops := 1\<rparr>"

definition w_neg1 :: world where
  "w_neg1 = w_open\<lparr>calls := [OpenFile_call ''data/x'', WriteAt_call 3 (- 1) [7]]\<rparr>"

definition w_neg2 :: world where
  "w_neg2 = w_open\<lparr>calls := [OpenFile_call ''data/x'', WriteAt_call 3 (- 1) [7], WriteAt_call 3 (- 1) [7]]\<rparr>"

text \<open>
  Collaborators of the proxy: a sketch that is the list of the bytes added, with a
  registry that only records the data saved (\<open>d_log\<close>) or with the repository's own
  registry (\<open>d_repo\<close>); the argument is \<open>SaveThresholdOps\<close>.
\<close>

definition d_log :: "64 word \<Rightarrow> (byte list, (string \<times> byte list) list) collaborators" where
  "d_log T = \<lparr>AddMultiple = (\<lambda>sk vs. (sk @ concat vs, True, None)),
              RemoveMultiple = (\<lambda>sk vs. (sk, False, Some (ErrExternal ''unsupported''))),
              Marshal = (\<lambda>sk. (sk, None)),
              SaveThresholdOps = T,
              json_Marshal = (\<lambda>i. []),
              NewSketch = (\<lambda>i. Some (Inr ([], i))),
              Create_m = (\<lambda>i m. (None, m)),
              SaveData_m = (\<lambda>i b off m. Done (None, m @ [(i, b)])),
              SaveInfo_m = (\<lambda>i b m. (None, m))\<rparr>"

definition d_repo :: "64 word \<Rightarrow> (byte list, storage) collaborators" where
  "d_repo T = \<lparr>AddMultiple = (\<lambda>sk vs. (sk @ concat vs, True, None)),
               RemoveMultiple = (\<lambda>sk vs. (sk, False, Some (ErrExternal ''unsupported''))),
               Marshal = (\<lambda>sk. (sk, None)),
               SaveThresholdOps = T,
               json_Marshal = (\<lambda>i. []),
               NewSketch = (\<lambda>i. Some (Inr ([], i))),
               Create_m = Create,
               SaveData_m = SaveData,
               SaveInfo_m = (\<lambda>i b st. (None, st))\<rparr>"

definition i_ex :: Info where
  "i_ex = \<lparr>ID = ''x'', Type_I = ''bloom'', Properties = (\<lambda>c. 0)\<rparr>"

text \<open>A dirty proxy whose counter is off the multiples of every threshold above 1.\<close>

definition sp_dirty :: "byte list SketchProxy" where
  "sp_dirty = \<lparr>info = i_ex, sketch = [4], ops_sp = 1, dirty_sp = True\<rparr>"

text \<open>The proxy as \<open>loadSketch\<close> builds it: counter 0, clean.\<close>

definition sp_loaded :: "byte list SketchProxy" where
  "sp_loaded = \<lparr>info = i_ex, sketch = [], ops_sp = 0, dirty_sp = False\<rparr>"

definition e_log :: "(string \<times> byte list) list env" where
  "e_log = \<lparr>registry_e = [], logged = []\<rparr>"

definition e_denied :: "storage env" where
  "e_denied = \<lparr>registry_e = (m_ex, w_denied), logged = []\<rparr>"

text \<open>The entries of \<open>xs\<close> with the dirty flag of every key in \<open>K\<close> cleared.\<close>

definition cleaned :: "int64 set \<Rightarrow> entry list \<Rightarrow> entry list" where
  "cleaned K xs = map (\<lambda>e. if key e \<in> K then e\<lparr>val := (val e)\<lparr>dirty := False\<rparr>\<rparr> else e) xs"

section \<open>Facts about the page cache\<close>

lemma index_of_Some: "index_of k xs = Some i \<Longrightarrow> i < length xs \<and> key (xs ! i) = k"
  by (induction xs arbitrary: i) (auto split: if_splits)

lemma index_of_None: "index_of k xs = None \<longleftrightarrow> k \<notin> key ` set xs"
  by (induction xs) auto

lemma length_unlink: "i < length xs \<Longrightarrow> length (unlink i xs) = length xs - 1"
  by (auto simp: unlink_def)

lemma distinct_unlink_gen:
  assumes "distinct ys"
  shows "distinct (unlink i ys)"
proof -
  have "distinct (take i ys @ drop i ys)" using assms by simp
  then have D: "distinct (take i ys)" "distinct (drop i ys)" "set (take i ys) \<inter> set (drop i ys) = {}"
    by (simp_all only: distinct_append)
  have S: "drop (Suc i) ys = drop 1 (drop i ys)" by simp
  have "distinct (drop (Suc i) ys)" unfolding S using D(2) by (rule distinct_drop)
  moreover have "set (drop (Suc i) ys) \<subseteq> set (drop i ys)" unfolding S by (rule set_drop_subset)
  ultimately show ?thesis using D unfolding unlink_def by auto
qed

lemma distinct_unlink: "distinct (map key xs) \<Longrightarrow> distinct (map key (unlink i xs))"
  using distinct_unlink_gen[of "map key xs" i] by (simp add: unlink_def take_map drop_map)

text \<open>
  What the loop of \<open>removeOldest\<close> finds: the clean entry nearest to the back among the
  positions in front of the one it started from, which itself is never examined.
\<close>

lemma scan_Some:
  "scan xs n = Some j \<Longrightarrow>
     j < n \<and> \<not> dirty (val (xs ! j)) \<and> (\<forall>i. j < i \<and> i < n \<longrightarrow> dirty (val (xs ! i)))"
proof (induction n)
  case 0 then show ?case by simp
next
  case (Suc n)
  show ?case
  proof (cases "dirty (val (xs ! n))")
    case False with Suc.prems show ?thesis by auto
  next
    case True
    with Suc.prems have "scan xs n = Some j" by simp
    from Suc.IH[OF this] True show ?thesis by (auto simp: less_Suc_eq)
  qed
qed

lemma scan_None: "scan xs n = None \<longleftrightarrow> (\<forall>i<n. dirty (val (xs ! i)))"
  by (induction n) (auto simp: less_Suc_eq)

lemma removeElement_ll: "ll (fst (removeElement c i s)) = unlink i (ll c)"
  by (simp add: removeElement_def Let_def split: option.splits)

lemma removeElement_keeps:
  "MaxEntries (fst (removeElement c i s)) = MaxEntries c \<and> OnEvicted (fst (removeElement c i s)) = OnEvicted c"
  by (simp add: removeElement_def Let_def split: option.splits)

lemma removeOldest_length:
  "ll c \<noteq> [] \<Longrightarrow> length (ll (fst (removeOldest c s))) = length (ll c) - 1"
  by (auto simp: removeOldest_def Let_def removeElement_ll length_unlink split: option.splits dest!: scan_Some)

lemma removeOldest_unlink: "\<exists>j. ll (fst (removeOldest c s)) = unlink j (ll c)"
proof (cases "ll c = []")
  case True
  then show ?thesis by (simp add: removeOldest_def unlink_def)
next
  case False
  then show ?thesis
    by (auto simp: removeOldest_def Let_def removeElement_ll split: option.splits)
qed

lemma removeOldest_keeps:
  "MaxEntries (fst (removeOldest c s)) = MaxEntries c \<and> OnEvicted (fst (removeOldest c s)) = OnEvicted c"
  by (auto simp: removeOldest_def Let_def removeElement_keeps split: option.splits)

lemma Add_keeps:
  "MaxEntries (fst (Add c k v s)) = MaxEntries c \<and> OnEvicted (fst (Add c k v s)) = OnEvicted c"
  by (auto simp: Add_def Let_def removeOldest_keeps split: option.splits)

lemma Add_bound:
  assumes "0 < MaxEntries c" "int (length (ll c)) \<le> MaxEntries c"
  shows "int (length (ll (fst (Add c k v s)))) \<le> MaxEntries c"
proof (cases "index_of k (ll c)")
  case None
  then show ?thesis using assms
    by (auto simp: Add_def Let_def removeOldest_length)
next
  case (Some i)
  then have "i < length (ll c)" by (simp add: index_of_Some)
  then show ?thesis using assms Some
    by (auto simp: Add_def length_unlink)
qed

lemma Adds_bound:
  "0 < MaxEntries c \<Longrightarrow> int (length (ll c)) \<le> MaxEntries c \<Longrightarrow>
   int (length (ll (fst (Adds c kvs s)))) \<le> MaxEntries c"
proof (induction kvs arbitrary: c s)
  case Nil then show ?case by simp
next
  case (Cons kv kvs)
  obtain c' s' where A: "Add c (fst kv) (snd kv) s = (c', s')" by fastforce
  have M: "MaxEntries c' = MaxEntries c" using Add_keeps[of c "fst kv" "snd kv" s] A by simp
  have B: "int (length (ll c')) \<le> MaxEntries c'"
    using Add_bound[OF Cons.prems, of "fst kv" "snd kv" s] A M by simp
  show ?case using Cons.IH[of c' s'] B M Cons.prems A by simp
qed

lemma Add_unbounded:
  assumes "MaxEntries c = 0"
  shows "snd (Add c k v s) = s \<and> key ` set (ll (fst (Add c k v s))) = insert k (key ` set (ll c))"
proof (cases "index_of k (ll c)")
  case None
  then show ?thesis using assms by (auto simp: Add_def Let_def)
next
  case (Some i)
  then have i: "i < length (ll c)" "key (ll c ! i) = k" by (simp_all add: index_of_Some)
  have "ll c = take i (ll c) @ (ll c ! i) # drop (Suc i) (ll c)" using i by (simp add: id_take_nth_drop)
  then have "set (ll c) = insert (ll c ! i) (set (unlink i (ll c)))"
    unfolding unlink_def by (metis Un_insert_right list.simps(15) set_append)
  then show ?thesis using Some i by (auto simp: Add_def)
qed

lemma Adds_unbounded:
  "MaxEntries c = 0 \<Longrightarrow>
   snd (Adds c kvs s) = s \<and> key ` set (ll (fst (Adds c kvs s))) = key ` set (ll c) \<union> fst ` set kvs"
proof (induction kvs arbitrary: c s)
  case Nil then show ?case by simp
next
  case (Cons kv kvs)
  obtain c' s' where A: "Add c (fst kv) (snd kv) s = (c', s')" by fastforce
  have M: "MaxEntries c' = 0" using Add_keeps[of c "fst kv" "snd kv" s] A Cons.prems by simp
  have U: "s' = s" "key ` set (ll c') = insert (fst kv) (key ` set (ll c))"
    using Add_unbounded[OF Cons.prems, of "fst kv" "snd kv" s] A by simp_all
  show ?case using Cons.IH[OF M, of s'] A U by auto
qed

text \<open>A dirty page put into a cache of non-negative capacity ends up at the front.\<close>

lemma Add_front:
  assumes "0 \<le> MaxEntries c" "dirty v"
  shows "\<exists>rest. ll (fst (Add c k v s)) = \<lparr>key = k, val = v\<rparr> # rest"
proof (cases "index_of k (ll c)")
  case (Some i) then show ?thesis by (simp add: Add_def)
next
  case None
  let ?n = "\<lparr>key = k, val = v\<rparr>"
  let ?c = "c\<lparr>ll := ?n # ll c\<rparr>"
  show ?thesis
  proof (cases "MaxEntries c \<noteq> 0 \<and> int (length (ll ?c)) > MaxEntries c")
    case False
    with None show ?thesis by (auto simp: Add_def Let_def)
  next
    case True
    with assms have ne: "ll c \<noteq> []" by auto
    have A: "Add c k v s = removeOldest ?c s" using None True by (simp add: Add_def Let_def)
    show ?thesis
    proof (cases "scan (ll ?c) (length (ll ?c) - 1)")
      case None
      have "length (ll c) > 0" using ne by simp
      then obtain m where m: "length (ll c) = Suc m" by (cases "length (ll c)") auto
      have "ll (fst (removeOldest ?c s)) = unlink (length (ll c)) (?n # ll c)"
        using None by (simp add: removeOldest_def Let_def removeElement_ll)
      also have "\<dots> = ?n # unlink m (ll c)" using m by (simp add: unlink_def)
      finally show ?thesis using A by simp
    next
      case (Some j)
      from scan_Some[OF this] assms(2) have "j \<noteq> 0" by (cases j) auto
      then obtain m where m: "j = Suc m" by (cases j) auto
      have "ll (fst (removeOldest ?c s)) = unlink j (?n # ll c)"
        using Some by (simp add: removeOldest_def Let_def removeElement_ll)
      also have "\<dots> = ?n # unlink m (ll c)" using m by (simp add: unlink_def)
      finally show ?thesis using A by simp
    qed
  qed
qed

text \<open>The operations keep the keys of the list pairwise different, as the Go map requires.\<close>

lemma Add_distinct:
  assumes "distinct (map key (ll c))"
  shows "distinct (map key (ll (fst (Add c k v s))))"
proof (cases "index_of k (ll c)")
  case (Some i)
  then have i: "i < length (ll c)" "key (ll c ! i) = k" by (simp_all add: index_of_Some)
  let ?ks = "map key (ll c)"
  have "i < length ?ks" "?ks ! i = k" using i by simp_all
  then have "?ks = take i ?ks @ k # drop (Suc i) ?ks" by (metis id_take_nth_drop)
  then have "distinct (take i ?ks @ k # drop (Suc i) ?ks)" using assms by simp
  then have "k \<notin> set (take i ?ks @ drop (Suc i) ?ks)" by auto
  then have "k \<notin> set (map key (unlink i (ll c)))" by (simp add: unlink_def take_map drop_map)
  then show ?thesis using Some assms distinct_unlink[of "ll c" i] by (simp add: Add_def)
next
  case None
  then have "k \<notin> key ` set (ll c)" by (simp add: index_of_None)
  then have D: "distinct (map key (\<lparr>key = k, val = v\<rparr> # ll c))" using assms by simp
  obtain j where "ll (fst (removeOldest (c\<lparr>ll := \<lparr>key = k, val = v\<rparr> # ll c\<rparr>) s)) = unlink j (\<lparr>key = k, val = v\<rparr> # ll c)"
    using removeOldest_unlink[of "c\<lparr>ll := \<lparr>key = k, val = v\<rparr> # ll c\<rparr>" s] by auto
  then show ?thesis using None D distinct_unlink[OF D]
    by (auto simp: Add_def Let_def)
qed

lemma promote_distinct:
  assumes "distinct (map key xs)" "i < length xs"
  shows "distinct (map key (xs ! i # unlink i xs))"
proof -
  let ?ks = "map key xs"
  have "i < length ?ks" "?ks ! i = key (xs ! i)" using assms(2) by simp_all
  then have "?ks = take i ?ks @ key (xs ! i) # drop (Suc i) ?ks" by (metis id_take_nth_drop)
  then have "distinct (take i ?ks @ key (xs ! i) # drop (Suc i) ?ks)" using assms(1) by simp
  then have "key (xs ! i) \<notin> set (take i ?ks @ drop (Suc i) ?ks)" by auto
  then have "key (xs ! i) \<notin> set (map key (unlink i xs))" by (simp add: unlink_def take_map drop_map)
  then show ?thesis using distinct_unlink[OF assms(1), of i] by simp
qed

lemma get_distinct:
  "distinct (map key (ll c)) \<Longrightarrow> distinct (map key (ll (snd (get c k))))"
  by (auto simp: get_def index_of_Some promote_distinct simp del: distinct.simps list.map split: option.splits)

section \<open>Facts about the file layer\<close>

text \<open>A flush changes dirty flags only; keys, bytes, order and configuration stay.\<close>

lemma Flush_loop_keep:
  "Flush_loop fd ks q w = Done (q', err, w') \<Longrightarrow>
     map key (ll q') = map key (ll q) \<and> map (\<lambda>e. bytes (val e)) (ll q') = map (\<lambda>e. bytes (val e)) (ll q)
     \<and> MaxEntries q' = MaxEntries q \<and> OnEvicted q' = OnEvicted q"
proof (induction ks arbitrary: q w)
  case Nil then show ?case by simp
next
  case (Cons k ks)
  from Cons.prems obtain i where i: "index_of k (ll q) = Some i"
    by (cases "index_of k (ll q)") auto
  then have il: "i < length (ll q)" by (simp add: index_of_Some)
  let ?q' = "q\<lparr>ll := (ll q)[i := (ll q ! i)\<lparr>val := (val (ll q ! i))\<lparr>dirty := False\<rparr>\<rparr>]\<rparr>"
  have K: "map key (ll ?q') = map key (ll q)"
    "map (\<lambda>e. bytes (val e)) (ll ?q') = map (\<lambda>e. bytes (val e)) (ll q)"
    using il by (simp_all add: map_update list_update_same_conv)
  show ?case
  proof (cases "dirty (val (ll q ! i))")
    case False
    with Cons.prems i have "Flush_loop fd ks ?q' w = Done (q', err, w')" by (simp add: Let_def)
    from Cons.IH[OF this] K show ?thesis by simp
  next
    case True
    show ?thesis
    proof (cases "os_WriteAt fd (bytes (val (ll q ! i))) k w")
      case (Pair e w1)
      show ?thesis
      proof (cases e)
        case None
        with Cons.prems i True Pair have "Flush_loop fd ks ?q' w1 = Done (q', err, w')"
          by (simp add: Let_def)
        from Cons.IH[OF this] K show ?thesis by simp
      next
        case (Some a)
        with Cons.prems i True Pair show ?thesis by (simp add: Let_def)
      qed
    qed
  qed
qed

text \<open>The keys a flush ranges over are keys of the cache, so \<open>peek\<close> never returns nil.\<close>

lemma Flush_loop_total:
  "set ks \<subseteq> key ` set (ll q) \<Longrightarrow> \<exists>r. Flush_loop fd ks q w = Done r"
proof (induction ks arbitrary: q w)
  case Nil then show ?case by simp
next
  case (Cons k ks)
  then have "index_of k (ll q) \<noteq> None" by (simp add: index_of_None)
  then obtain i where i: "index_of k (ll q) = Some i" by auto
  then have il: "i < length (ll q)" by (simp add: index_of_Some)
  let ?q' = "q\<lparr>ll := (ll q)[i := (ll q ! i)\<lparr>val := (val (ll q ! i))\<lparr>dirty := False\<rparr>\<rparr>]\<rparr>"
  have "map key (ll ?q') = map key (ll q)" using il by (simp add: map_update list_update_same_conv)
  then have "key ` set (ll ?q') = key ` set (ll q)" by (metis set_map)
  with Cons.prems have S: "set ks \<subseteq> key ` set (ll ?q')" by simp
  show ?case using i Cons.IH[OF S]
    by (auto simp: Let_def split: prod.splits option.splits)
qed

lemma Flush_total: "\<exists>r. Flush fq w = Done r"
proof -
  have "set (keys (queue fq)) \<subseteq> key ` set (ll (queue fq))" by (simp add: keys_def)
  from Flush_loop_total[OF this, of "file_F fq" w] show ?thesis
    by (auto simp: Flush_def)
qed

lemma update_at_index:
  "distinct (map key xs) \<Longrightarrow> index_of k xs = Some i \<Longrightarrow>
   xs[i := g (xs ! i)] = map (\<lambda>e. if key e = k then g e else e) xs"
proof (induction xs arbitrary: i)
  case Nil then show ?case by simp
next
  case (Cons x xs)
  show ?case
  proof (cases "key x = k")
    case True
    with Cons.prems have "i = 0" by simp
    moreover have "key e \<noteq> k" if "e \<in> set xs" for e
      using Cons.prems(1) True that by (metis distinct.simps(2) image_eqI list.simps(9) set_map)
    then have "map (\<lambda>e. if key e = k then g e else e) xs = xs"
      by (intro map_idI) simp
    ultimately show ?thesis using True by simp
  next
    case False
    with Cons.prems obtain j where j: "i = Suc j" "index_of k xs = Some j" by auto
    with Cons.IH[of j] Cons.prems(1) False show ?thesis by simp
  qed
qed

lemma cleaned_step:
  "cleaned K (map (\<lambda>e. if key e = k then e\<lparr>val := (val e)\<lparr>dirty := False\<rparr>\<rparr> else e) xs) = cleaned (insert k K) xs"
  by (auto simp: cleaned_def)

text \<open>A flush that reports no error has cleared the flag of every key it ranged over.\<close>

lemma Flush_loop_cleaned:
  "distinct (map key (ll q)) \<Longrightarrow> Flush_loop fd ks q w = Done (q', None, w') \<Longrightarrow>
   ll q' = cleaned (set ks) (ll q)"
proof (induction ks arbitrary: q w)
  case Nil then show ?case by (simp add: cleaned_def)
next
  case (Cons k ks)
  from Cons.prems obtain i where i: "index_of k (ll q) = Some i"
    by (cases "index_of k (ll q)") auto
  let ?g = "\<lambda>e. e\<lparr>val := (val e)\<lparr>dirty := False\<rparr>\<rparr>"
  let ?q' = "q\<lparr>ll := (ll q)[i := ?g (ll q ! i)]\<rparr>"
  have U: "ll ?q' = map (\<lambda>e. if key e = k then ?g e else e) (ll q)"
    using update_at_index[OF Cons.prems(1) i, of ?g] by simp
  then have D: "distinct (map key (ll ?q'))" using Cons.prems(1)
    by (simp add: comp_def if_distrib[of key] cong: if_cong)
  have "\<exists>w1. Flush_loop fd ks ?q' w1 = Done (q', None, w')"
    using Cons.prems(2) i by (auto simp: Let_def split: if_splits prod.splits option.splits)
  then obtain w1 where "Flush_loop fd ks ?q' w1 = Done (q', None, w')" ..
  from Cons.IH[OF D this] have "ll q' = cleaned (set ks) (ll ?q')" .
  then show ?case using U cleaned_step[of "set ks" k "ll q"] by simp
qed

text \<open>On a cache without dirty pages a flush calls nothing and changes nothing.\<close>

lemma Flush_loop_clean_id:
  "\<forall>e\<in>set (ll q). \<not> dirty (val e) \<Longrightarrow> set ks \<subseteq> key ` set (ll q) \<Longrightarrow>
   Flush_loop fd ks q w = Done (q, None, w)"
proof (induction ks)
  case Nil then show ?case by simp
next
  case (Cons k ks)
  then have "index_of k (ll q) \<noteq> None" by (simp add: index_of_None)
  then obtain i where i: "index_of k (ll q) = Some i" by auto
  then have il: "i < length (ll q)" by (simp add: index_of_Some)
  then have nd: "\<not> dirty (val (ll q ! i))" using Cons.prems(1) by simp
  then have "(ll q ! i)\<lparr>val := (val (ll q ! i))\<lparr>dirty := False\<rparr>\<rparr> = ll q ! i" by simp
  then have "q\<lparr>ll := (ll q)[i := (ll q ! i)\<lparr>val := (val (ll q ! i))\<lparr>dirty := False\<rparr>\<rparr>]\<rparr> = q" by simp
  then show ?case using i nd Cons by (simp add: Let_def)
qed

text \<open>\<open>Read\<close> never reports an error, whatever the positional read returned.\<close>

lemma Read_no_error: "fst (snd (snd (Read fq data offset w))) = None"
  by (auto simp: Read_def split: prod.splits option.splits)

text \<open>A miss followed by a successful positional read leaves the cache as it was.\<close>

lemma Read_miss_success_not_cached:
  "index_of offset (ll (queue fq)) = None \<Longrightarrow> snd (fst (os_ReadAt (file_F fq) data offset w)) = None \<Longrightarrow>
   fst (Read fq data offset w) = fq"
  by (auto simp: Read_def get_def split: prod.splits option.splits)

lemma NewFile_established:
  "NewFile i sz w = (Inr fq, w') \<Longrightarrow>
     size_F fq = sz \<and> MaxEntries (queue fq) = sint sz \<and> ll (queue fq) = []
     \<and> OnEvicted (queue fq) = Some (write_back (file_F fq)) \<and> fds w' (file_F fq) \<noteq> None"
  by (auto simp: NewFile_def os_OpenFile_def NewLRU_def Let_def split: if_splits option.splits)

lemma Write_keeps:
  assumes "Write fq data offset w = Done (fq', w')"
  shows "size_F fq' = size_F fq \<and> file_F fq' = file_F fq \<and> MaxEntries (queue fq') = MaxEntries (queue fq)
       \<and> OnEvicted (queue fq') = OnEvicted (queue fq)
       \<and> (distinct (map key (ll (queue fq))) \<longrightarrow> distinct (map key (ll (queue fq'))))"
proof -
  let ?v = "\<lparr>bytes = data, dirty = True\<rparr>"
  obtain q w1 where A: "Add (queue fq) offset ?v w = (q, w1)" by fastforce
  have K: "MaxEntries q = MaxEntries (queue fq)" "OnEvicted q = OnEvicted (queue fq)"
    using Add_keeps[of "queue fq" offset ?v w] A by simp_all
  have D: "distinct (map key (ll (queue fq))) \<Longrightarrow> distinct (map key (ll q))"
    using Add_distinct[of "queue fq" offset ?v w] A by simp
  let ?fq2 = "fq\<lparr>ops := ops fq + 1, queue := q\<rparr>"
  show ?thesis
  proof (cases "ops ?fq2 mod size_F ?fq2 = 0")
    case False
    then have "fq' = ?fq2" using assms A by (simp add: Write_def Let_def split: if_splits)
    then show ?thesis using K D by simp
  next
    case True
    then obtain err where F: "Flush ?fq2 w1 = Done (fq', err, w')"
      using assms A by (auto simp: Write_def Let_def split: if_splits outcome.splits)
    then obtain q3 where L: "Flush_loop (file_F ?fq2) (keys (queue ?fq2)) (queue ?fq2) w1 = Done (q3, err, w')"
      and fq3: "fq' = ?fq2\<lparr>queue := q3\<rparr>"
      by (auto simp: Flush_def split: outcome.splits)
    from Flush_loop_keep[OF L] show ?thesis using fq3 K D by simp
  qed
qed

lemma Read_distinct:
  assumes "distinct (map key (ll (queue fq)))"
  shows "distinct (map key (ll (queue (fst (Read fq data offset w)))))"
proof (cases "index_of offset (ll (queue fq))")
  case (Some i)
  then show ?thesis using get_distinct[OF assms, of offset]
    by (simp add: Read_def get_def)
next
  case None
  obtain d' err w' where R: "os_ReadAt (file_F fq) data offset w = ((d', err), w')"
    by (metis surj_pair)
  show ?thesis
  proof (cases err)
    case None
    then show ?thesis using \<open>index_of offset (ll (queue fq)) = None\<close> R assms by (simp add: Read_def get_def)
  next
    case (Some e)
    then show ?thesis
      using \<open>index_of offset (ll (queue fq)) = None\<close> R Add_distinct[OF assms, of offset "\<lparr>bytes = d', dirty = False\<rparr>" w']
      by (auto simp: Read_def get_def split: prod.splits)
  qed
qed

text \<open>A purge closes the descriptor first, so the write-backs of \<open>clear\<close> all fail.\<close>

lemma write_back_closed:
  "fds w fd = None \<Longrightarrow>
   write_back fd k v w = w\<lparr>calls := calls w @ [WriteAt_call fd k (bytes v)]\<rparr>"
  by (simp add: write_back_def os_WriteAt_def Let_def)

lemma fold_write_back_closed:
  "fds w fd = None \<Longrightarrow>
   fold (\<lambda>e. write_back fd (key e) (val e)) xs w =
     w\<lparr>calls := calls w @ map (\<lambda>e. WriteAt_call fd (key e) (bytes (val e))) xs\<rparr>"
proof (induction xs arbitrary: w)
  case Nil then show ?case by simp
next
  case (Cons x xs)
  have "fds (write_back fd (key x) (val x) w) fd = None" using Cons.prems by (simp add: write_back_closed)
  from Cons.IH[OF this] show ?case using Cons.prems by (simp add: write_back_closed)
qed

lemma Purge_world:
  assumes "OnEvicted (queue f) = Some (write_back (file_F f))"
  shows "Purge f w = (f\<lparr>queue := (queue f)\<lparr>ll := []\<rparr>, ops := 0\<rparr>,
           w\<lparr>fds := (fds w)(file_F f := None),
             calls := calls w @ Close_call (file_F f) #
                        map (\<lambda>e. WriteAt_call (file_F f) (key e) (bytes (val e))) (ll (queue f))\<rparr>)"
proof -
  let ?w1 = "w\<lparr>fds := (fds w)(file_F f := None), calls := calls w @ [Close_call (file_F f)]\<rparr>"
  have C: "snd (os_Close (file_F f) w) = ?w1"
    by (cases "fds w (file_F f)") (simp_all add: os_Close_def Let_def fun_upd_idem)
  obtain err w1 where C': "os_Close (file_F f) w = (err, w1)" by fastforce
  with C have w1: "w1 = ?w1" by simp
  have "fds ?w1 (file_F f) = None" by simp
  from fold_write_back_closed[OF this, of "ll (queue f)"] C' w1 assms show ?thesis
    by (simp add: Purge_def clear_def)
qed

text \<open>Removing a path takes that name away and touches no inode and no descriptor.\<close>

lemma map_of_filter_fst:
  "map_of (filter (\<lambda>e. fst e \<noteq> p) xs) = (map_of xs)(p := None)"
  by (induction xs) (auto simp: fun_eq_iff)

lemma os_Remove_world:
  "files (snd (os_Remove p w)) = (files w)(p := None)
   \<and> inodes (snd (os_Remove p w)) = inodes w \<and> fds (snd (os_Remove p w)) = fds w
   \<and> calls (snd (os_Remove p w)) = calls w @ [Remove_call p]"
  by (auto simp: os_Remove_def files_def Let_def map_of_filter_fst fun_eq_iff split: option.splits)

lemma NewFile_ex: "NewFile ''data/x'' 100000 w_ex = (Inr fq_ex, w_open)"
  by (simp add: NewFile_def os_OpenFile_def w_ex_def w_open_def fq_ex_def NewLRU_def Let_def)

lemma Write_ex: "Write fq_ex [9] 0 w_open = Done (fq_short, w_open)"
  by (simp add: Write_def fq_ex_def fq_short_def Add_def Let_def)

lemma Write_neg_ex: "Write fq_ex [7] (- 1) w_open = Done (fq_neg, w_open)"
  by (simp add: Write_def fq_ex_def fq_neg_def Add_def Let_def)

lemma Flush_ex: "Flush fq_short w_open = Done (fq_flushed, None, w_flushed)"
  by (simp add: Flush_def fq_short_def fq_ex_def fq_flushed_def w_flushed_def w_open_def w_ex_def keys_def
      os_WriteAt_def write_at_def Let_def)

section \<open>Facts about the registry and the proxy\<close>

lemma map_of_reg_store:
  "map_of r i = Some f \<Longrightarrow> map_of (reg_store r i g) i = Some g"
  by (induction r) (auto simp: reg_store_def)

text \<open>Whenever the file cannot be resolved, \<open>SaveData\<close> panics and \<open>LoadData\<close> returns the error.\<close>

lemma SaveData_nil:
  "fst (fst (getFileFromCache i st)) = None \<Longrightarrow> SaveData i data offset st = Panic"
  by (auto simp: SaveData_def split: prod.splits option.splits)

lemma LoadData_nil:
  "fst (getFileFromCache i st) = (None, Some err) \<Longrightarrow>
   LoadData i offset n st = Done (Inl err, snd (getFileFromCache i st))"
  by (auto simp: LoadData_def split: prod.splits option.splits)

lemma SaveData_ex: "SaveData ''x'' [9] 0 (m_open, w_open) = Done (None, (m_dirty, w_open))"
  by (simp add: SaveData_def getFileFromCache_def reg_Get_def m_open_def m_dirty_def m_ex_def
      Write_ex reg_store_def)

lemma Create_ex: "Create ''x'' (m_ex, w_ex) = (None, (m_open, w_open))"
  by (simp add: Create_def m_ex_def m_open_def filepath_Join_def reg_Add_def NewFile_ex)

text \<open>A mutation that returns hands back what the sketch returned.\<close>

lemma SketchProxy_Add_result:
  "SketchProxy_Add d sp vs e = Done (res, sp', e') \<Longrightarrow> res = snd (AddMultiple d (sketch sp) vs)"
  by (auto simp: SketchProxy_Add_def Let_def split: prod.splits outcome.splits)

lemma SketchProxy_Remove_result:
  "SketchProxy_Remove d sp vs e = Done (res, sp', e') \<Longrightarrow> res = snd (RemoveMultiple d (sketch sp) vs)"
  by (auto simp: SketchProxy_Remove_def Let_def split: prod.splits outcome.splits)

text \<open>
  Counting up from \<open>w\<close>, the next multiple of \<open>T\<close> is reached after
  \<open>T - w mod T\<close> steps and not before.
\<close>

lemma word_step_nz:
  fixes w T :: "64 word"
  assumes "0 < j" "j < unat T - unat (w mod T)" "unat w + (unat T - unat (w mod T)) < 2 ^ 64"
  shows "(w + of_nat j) mod T \<noteq> 0"
proof -
  have uj: "unat (of_nat j :: 64 word) = j"
    using assms(2,3) by (intro of_nat_inverse) simp_all
  have "unat w + j < 2 ^ 64" using assms(2,3) by linarith
  then have ua: "unat (w + of_nat j) = unat w + j"
    using uj unat_add_lem[of w "of_nat j"] by simp
  have r: "unat w mod unat T = unat (w mod T)" by (simp add: unat_mod)
  have "(unat w + j) mod unat T = (unat (w mod T) + j) mod unat T"
    unfolding r[symmetric] by (simp add: mod_add_left_eq)
  also have "\<dots> = unat (w mod T) + j" using assms(2) by simp
  finally have "unat ((w + of_nat j) mod T) = unat (w mod T) + j" using ua by (simp add: unat_mod)
  then have "unat ((w + of_nat j) mod T) \<noteq> 0" using assms(1) by simp
  then show ?thesis by (simp add: unat_0_iff)
qed

lemma word_step_z:
  fixes w T :: "64 word"
  assumes "T \<noteq> 0" "unat w + (unat T - unat (w mod T)) < 2 ^ 64"
  shows "(w + of_nat (unat T - unat (w mod T))) mod T = 0"
proof -
  let ?k = "unat T - unat (w mod T)"
  have lt: "unat (w mod T) < unat T"
    using assms(1) by (simp add: unat_mod unat_gt_0)
  have uk: "unat (of_nat ?k :: 64 word) = ?k"
    using assms(2) by (intro of_nat_inverse) simp_all
  have ua: "unat (w + of_nat ?k) = unat w + ?k"
    using uk assms(2) unat_add_lem[of w "of_nat ?k"] by simp
  have r: "unat w mod unat T = unat (w mod T)" by (simp add: unat_mod)
  have "(unat w + ?k) mod unat T = (unat (w mod T) + ?k) mod unat T"
    unfolding r[symmetric] by (simp add: mod_add_left_eq)
  also have "\<dots> = unat T mod unat T" using lt by simp
  finally have "unat ((w + of_nat ?k) mod T) = 0" using ua by (simp add: unat_mod)
  then show ?thesis by (simp add: unat_0_iff)
qed

text \<open>
  A mutation counts itself, marks the proxy dirty and ends with \<open>save(false)\<close> on that
  state.
\<close>

lemma touched_facts: "dirty_sp (touched d sp mu) \<and> ops_sp (touched d sp mu) = ops_sp sp + 1"
  by (cases mu) (simp_all add: touched_def)

lemma mutate_touched:
  "\<exists>res. mutate d sp mu e =
     (case save d (touched d sp mu) False e of Panic \<Rightarrow> Panic | Done (sp3, e') \<Rightarrow> Done (res, sp3, e'))"
proof (cases mu)
  case (Add_op vs)
  obtain sk res where A: "AddMultiple d (sketch sp) vs = (sk, res)"
    by (cases "AddMultiple d (sketch sp) vs") auto
  show ?thesis using Add_op A
    by (intro exI[of _ res]) (simp add: mutate_def SketchProxy_Add_def touched_def)
next
  case (Remove_op vs)
  obtain sk res where A: "RemoveMultiple d (sketch sp) vs = (sk, res)"
    by (cases "RemoveMultiple d (sketch sp) vs") auto
  show ?thesis using Remove_op A
    by (intro exI[of _ res]) (simp add: mutate_def SketchProxy_Remove_def touched_def)
qed

lemma applied_snoc: "applied d sp (xs @ [x]) = touched d (applied d sp xs) x"
  by (induction xs arbitrary: sp) simp_all

lemma applied_ops: "ops_sp (applied d sp mus) = ops_sp sp + of_nat (length mus)"
  by (induction mus arbitrary: sp) (simp_all add: touched_facts add.assoc add.commute)

text \<open>When \<open>save\<close> does its work: on a dirty proxy, if forced or at a multiple of the threshold.\<close>

lemma save_trigger:
  "dirty_sp sp \<Longrightarrow> SaveThresholdOps d \<noteq> 0 \<Longrightarrow>
   save d sp force e = (if force \<or> ops_sp sp mod SaveThresholdOps d = 0 then spec_saved d sp e else Done (sp, e))"
  by (auto simp: save_def spec_saved_def spec_persist_def log_err_def errs_def Let_def
      split: prod.splits outcome.splits option.splits)

lemma save_clean: "\<not> dirty_sp sp \<Longrightarrow> save d sp force e = Done (sp, e)"
  by (simp add: save_def)

text \<open>While the counter stays off the multiples of the threshold, nothing is saved.\<close>

lemma mutations_nosave:
  assumes "SaveThresholdOps d \<noteq> 0"
    and "\<forall>j. 0 < j \<and> j \<le> length mus \<longrightarrow> (ops_sp sp + of_nat j) mod SaveThresholdOps d \<noteq> 0"
  shows "mutations d sp mus e = Done (applied d sp mus, e)"
  using assms(2)
proof (induction mus arbitrary: sp)
  case Nil then show ?case by simp
next
  case (Cons mu mus)
  let ?sp2 = "touched d sp mu"
  have sp2: "dirty_sp ?sp2" "ops_sp ?sp2 = ops_sp sp + 1" using touched_facts[of d sp mu] by simp_all
  from mutate_touched[of d sp mu e] obtain res where
    m: "mutate d sp mu e = (case save d ?sp2 False e of Panic \<Rightarrow> Panic | Done (sp3, e') \<Rightarrow> Done (res, sp3, e'))"
    by blast
  have "(ops_sp sp + of_nat 1) mod SaveThresholdOps d \<noteq> 0"
    using Cons.prems by (intro Cons.prems[rule_format]) simp
  then have "ops_sp ?sp2 mod SaveThresholdOps d \<noteq> 0" using sp2(2) by simp
  then have "save d ?sp2 False e = Done (?sp2, e)" using sp2(1) assms(1) by (simp add: save_trigger)
  then have M: "mutate d sp mu e = Done (res, ?sp2, e)" using m by simp
  have "\<forall>j. 0 < j \<and> j \<le> length mus \<longrightarrow> (ops_sp ?sp2 + of_nat j) mod SaveThresholdOps d \<noteq> 0"
  proof (intro allI impI)
    fix j assume "0 < j \<and> j \<le> length mus"
    then have "(ops_sp sp + of_nat (Suc j)) mod SaveThresholdOps d \<noteq> 0"
      by (intro Cons.prems[rule_format]) simp
    moreover have "ops_sp ?sp2 + of_nat j = ops_sp sp + of_nat (Suc j)" using sp2(2) by simp
    ultimately show "(ops_sp ?sp2 + of_nat j) mod SaveThresholdOps d \<noteq> 0" by metis
  qed
  from Cons.IH[OF this] M show ?case by simp
qed

lemma mutations_snoc:
  "mutations d sp (xs @ [x]) e =
     (case mutations d sp xs e of Panic \<Rightarrow> Panic
      | Done (sp', e') \<Rightarrow> (case mutate d sp' x e' of Panic \<Rightarrow> Panic | Done (res, sp'', e'') \<Rightarrow> Done (sp'', e'')))"
  by (induction xs arbitrary: sp e) (auto split: outcome.splits)

section \<open>The claims\<close>

text \<open>
  C1 (the code departs from it). The claim: on overflow the eviction scan starts at the
  least recently used entry and evicts the first clean entry it meets, the least
  recently used one if there is none. The loop of \<open>removeOldest\<close> steps to the previous
  element before it tests the dirty flag, so the least recently used entry is never
  tested: with capacity 2 and the clean pages 0 and 1 resident, adding page 2 evicts
  page 1 and keeps the older clean page 0; and a clean page added to a cache full of
  dirty pages is itself the entry evicted.
\<close>

theorem lru_scan_skips_oldest:
  "map key (ll (fst (Adds (NewLRU 2) [(0, clean_page), (1, clean_page), (2, dirty_page)] ()))) = [2, 0]
   \<and> map key (ll (fst (Adds (NewLRU 2) [(0, dirty_page), (1, dirty_page), (2, clean_page)] ()))) = [1, 0]"
  by (simp add: NewLRU_def Add_def removeOldest_def removeElement_def unlink_def clean_page_def
      dirty_page_def Let_def)

text \<open>
  C2 (the code departs from it). The claim: a miss whose positional read succeeds caches
  the buffer as a clean entry and returns success; a failing read returns the error and
  caches nothing. \<open>Read\<close> tests \<open>err == nil\<close> where it means the opposite: reading
  two bytes of the three-byte file succeeds and caches nothing, reading four bytes ends
  in \<open>EOF\<close>, and the call returns no error and caches the partly filled buffer.
\<close>

theorem read_miss_inverted:
  "snd (fst (os_ReadAt 3 [0, 0] 0 w_open)) = None
   \<and> fst (snd (Read fq_ex [0, 0] 0 w_open)) = [1, 2]
   \<and> fst (snd (snd (Read fq_ex [0, 0] 0 w_open))) = None
   \<and> ll (queue (fst (Read fq_ex [0, 0] 0 w_open))) = []
   \<and> snd (fst (os_ReadAt 3 [0, 0, 0, 0] 0 w_open)) = Some EOF
   \<and> fst (snd (snd (Read fq_ex [0, 0, 0, 0] 0 w_open))) = None
   \<and> ll (queue (fst (Read fq_ex [0, 0, 0, 0] 0 w_open)))
       = [\<lparr>key = 0, val = \<lparr>bytes = [1, 2, 3, 0], dirty = False\<rparr>\<rparr>]"
  by (simp add: fq_ex_def w_open_def w_ex_def Let_def Read_def get_def os_ReadAt_def Add_def)

text \<open>
  C3 (amended). The claim as written fails: \<open>save\<close> adds one to the counter itself, so
  a proxy fresh from \<open>createSketch\<close> has counter 1, and with threshold 3 its second
  mutation saves while its third does not.
\<close>

theorem threshold_save_counterexample:
  "(case createSketch (d_log 3) i_ex e_log of
      Done (Inr sp0, e0) \<Rightarrow>
        (case mutations (d_log 3) sp0 [Add_op [[1]], Add_op [[2]]] e0 of
           Done (sp2, e2) \<Rightarrow>
             (case mutate (d_log 3) sp2 (Add_op [[3]]) e2 of
                Done (r, sp3, e3) \<Rightarrow>
                  ops_sp sp0 = 1 \<and> registry_e e0 = [(''x'', [])]
                  \<and> registry_e e2 = [(''x'', []), (''x'', [1, 2])]
                  \<and> registry_e e3 = registry_e e2 \<and> dirty_sp sp3
              | Panic \<Rightarrow> False)
         | Panic \<Rightarrow> False)
    | Done (Inl err, e0) \<Rightarrow> False
    | Panic \<Rightarrow> False)"
  by (simp add: createSketch_def d_log_def i_ex_def e_log_def save_def log_err_def mutate_def
      SketchProxy_Add_def bump_def Let_def)

text \<open>
  C3, as amended: take a proxy with counter \<open>c\<close>, a non-zero \<open>SaveThresholdOps\<close>
  and no wrap-around, and a sequence of exactly \<open>SaveThresholdOps - c mod
  SaveThresholdOps\<close> mutations with no forced save in between; that is exactly
  \<open>SaveThresholdOps\<close> mutations when \<open>c\<close> is a multiple of the threshold, as on a
  proxy just loaded. No mutation before the last saves: the registry and the log are
  untouched and the proxy is the one the mutations alone produce. The last mutation
  saves synchronously: it hands the serialized sketch to the Registry's \<open>SaveData\<close>
  at offset 0 and then the metadata to \<open>SaveInfo\<close>, logs their errors and leaves the
  proxy Clean (\<open>spec_saved\<close>; when \<open>SaveData\<close> does not return, neither does the
  mutation). On a dirty proxy \<open>save\<close> is carried out when \<open>force\<close> is set or when the
  counter is congruent to 0 modulo \<open>SaveThresholdOps\<close>, and only then; on a clean
  proxy it does nothing.
\<close>

theorem threshold_save:
  assumes T: "SaveThresholdOps d \<noteq> 0"
    and len: "length mus = unat (SaveThresholdOps d) - unat (ops_sp sp mod SaveThresholdOps d)"
    and nowrap: "unat (ops_sp sp) + length mus < 2 ^ 64"
  shows "(\<forall>n. 0 < n \<and> n < length mus \<longrightarrow>
            mutations d sp (take n mus) e = Done (applied d sp (take n mus), e))
       \<and> mutations d sp mus e = spec_saved d (applied d sp mus) e
       \<and> (ops_sp sp mod SaveThresholdOps d = 0 \<longrightarrow> length mus = unat (SaveThresholdOps d))
       \<and> (\<forall>sp' force e'. dirty_sp sp' \<longrightarrow>
            save d sp' force e' =
              (if force \<or> ops_sp sp' mod SaveThresholdOps d = 0 then spec_saved d sp' e'
               else Done (sp', e')))
       \<and> (\<forall>sp' force e'. \<not> dirty_sp sp' \<longrightarrow> save d sp' force e' = Done (sp', e'))"
proof (intro conjI allI impI)
  fix n assume n: "0 < n \<and> n < length mus"
  have "\<forall>j. 0 < j \<and> j \<le> length (take n mus) \<longrightarrow> (ops_sp sp + of_nat j) mod SaveThresholdOps d \<noteq> 0"
  proof (intro allI impI)
    fix j assume "0 < j \<and> j \<le> length (take n mus)"
    then have "0 < j" "j < unat (SaveThresholdOps d) - unat (ops_sp sp mod SaveThresholdOps d)"
      using n len by simp_all
    then show "(ops_sp sp + of_nat j) mod SaveThresholdOps d \<noteq> 0"
      using nowrap len by (intro word_step_nz) simp_all
  qed
  from mutations_nosave[OF T this, of e]
  show "mutations d sp (take n mus) e = Done (applied d sp (take n mus), e)" .
next
  have lt: "unat (ops_sp sp mod SaveThresholdOps d) < unat (SaveThresholdOps d)"
    using T by (simp add: unat_mod unat_gt_0)
  then have ne: "mus \<noteq> []" using len by auto
  then have split: "mus = butlast mus @ [last mus]" by simp
  have "\<forall>j. 0 < j \<and> j \<le> length (butlast mus) \<longrightarrow> (ops_sp sp + of_nat j) mod SaveThresholdOps d \<noteq> 0"
  proof (intro allI impI)
    fix j assume "0 < j \<and> j \<le> length (butlast mus)"
    moreover have "length (butlast mus) = length mus - 1" "0 < length mus" using ne by simp_all
    ultimately have "0 < j" "j < length mus" by linarith+
    then have "0 < j" "j < unat (SaveThresholdOps d) - unat (ops_sp sp mod SaveThresholdOps d)"
      using len by simp_all
    then show "(ops_sp sp + of_nat j) mod SaveThresholdOps d \<noteq> 0"
      using nowrap len by (intro word_step_nz) simp_all
  qed
  from mutations_nosave[OF T this, of e]
  have B: "mutations d sp (butlast mus) e = Done (applied d sp (butlast mus), e)" .
  let ?spT = "touched d (applied d sp (butlast mus)) (last mus)"
  have spT: "?spT = applied d sp mus" using applied_snoc[of d sp "butlast mus" "last mus"] split by simp
  from mutate_touched[of d "applied d sp (butlast mus)" "last mus" e] obtain res where
    m: "mutate d (applied d sp (butlast mus)) (last mus) e
          = (case save d ?spT False e of Panic \<Rightarrow> Panic | Done (sp3, e') \<Rightarrow> Done (res, sp3, e'))"
    by blast
  have "ops_sp (applied d sp mus) = ops_sp sp + of_nat (length mus)" by (rule applied_ops)
  moreover have "(ops_sp sp + of_nat (length mus)) mod SaveThresholdOps d = 0"
    unfolding len using T nowrap len by (intro word_step_z) simp_all
  ultimately have z: "ops_sp (applied d sp mus) mod SaveThresholdOps d = 0" by simp
  have dt: "dirty_sp (applied d sp mus)" using touched_facts[of d "applied d sp (butlast mus)" "last mus"] spT by simp
  have "save d (applied d sp mus) False e = spec_saved d (applied d sp mus) e"
    using dt T z by (simp add: save_trigger)
  then have "mutations d sp (butlast mus @ [last mus]) e = spec_saved d (applied d sp mus) e"
    using B m spT by (auto simp: mutations_snoc split: outcome.splits)
  then show "mutations d sp mus e = spec_saved d (applied d sp mus) e" using split by simp
next
  assume "ops_sp sp mod SaveThresholdOps d = 0"
  then show "length mus = unat (SaveThresholdOps d)" using len by simp
next
  fix sp' :: "'a SketchProxy" and force and e' :: "'b env"
  assume "dirty_sp sp'"
  then show "save d sp' force e' =
      (if force \<or> ops_sp sp' mod SaveThresholdOps d = 0 then spec_saved d sp' e' else Done (sp', e'))"
    using T by (rule save_trigger)
next
  fix sp' :: "'a SketchProxy" and force and e' :: "'b env"
  assume "\<not> dirty_sp sp'"
  then show "save d sp' force e' = Done (sp', e')" by (rule save_clean)
qed

text \<open>
  The amended C3 on a loaded proxy with threshold 2, one \<open>Add\<close> and one \<open>Remove\<close>:
  after the first mutation the registry is empty, after the second it holds the
  sketch; a dirty proxy off the threshold saves when forced and not otherwise.
\<close>

theorem threshold_save_witness:
  "SaveThresholdOps (d_log 2) \<noteq> 0
   \<and> length [Add_op [[1]], Remove_op [[2]]]
       = unat (SaveThresholdOps (d_log 2)) - unat (ops_sp sp_loaded mod SaveThresholdOps (d_log 2))
   \<and> unat (ops_sp sp_loaded) + length [Add_op [[1]], Remove_op [[2]]] < 2 ^ 64
   \<and> 0 < (1 :: nat) \<and> 1 < length [Add_op [[1]], Remove_op [[2]]]
   \<and> mutations (d_log 2) sp_loaded (take 1 [Add_op [[1]], Remove_op [[2]]]) e_log
       = Done (applied (d_log 2) sp_loaded (take 1 [Add_op [[1]], Remove_op [[2]]]), e_log)
   \<and> mutations (d_log 2) sp_loaded [Add_op [[1]], Remove_op [[2]]] e_log
       = spec_saved (d_log 2) (applied (d_log 2) sp_loaded [Add_op [[1]], Remove_op [[2]]]) e_log
   \<and> spec_persist (d_log 2) (applied (d_log 2) sp_loaded [Add_op [[1]], Remove_op [[2]]]) e_log
       = Done \<lparr>registry_e = [(''x'', [1])], logged = []\<rparr>
   \<and> ops_sp sp_loaded mod SaveThresholdOps (d_log 2) = 0
   \<and> length [Add_op [[1]], Remove_op [[2]]] = unat (SaveThresholdOps (d_log 2))
   \<and> dirty_sp sp_dirty
   \<and> save (d_log 2) sp_dirty True e_log = spec_saved (d_log 2) sp_dirty e_log
   \<and> save (d_log 2) sp_dirty False e_log = Done (sp_dirty, e_log)
   \<and> spec_persist (d_log 2) sp_dirty e_log = Done \<lparr>registry_e = [(''x'', [4])], logged = []\<rparr>
   \<and> \<not> dirty_sp sp_loaded
   \<and> save (d_log 2) sp_loaded True e_log = Done (sp_loaded, e_log)"
proof -
  let ?mus = "[Add_op [[1]], Remove_op [[2]]]"
  have h: "SaveThresholdOps (d_log 2) \<noteq> 0"
    "length ?mus = unat (SaveThresholdOps (d_log 2)) - unat (ops_sp sp_loaded mod SaveThresholdOps (d_log 2))"
    "unat (ops_sp sp_loaded) + length ?mus < 2 ^ 64"
    by (simp_all add: d_log_def sp_loaded_def)
  have n: "0 < (1 :: nat) \<and> 1 < length ?mus" by simp
  have z: "ops_sp sp_loaded mod SaveThresholdOps (d_log 2) = 0" by (simp add: sp_loaded_def)
  have dd: "dirty_sp sp_dirty" by (simp add: sp_dirty_def)
  have dl: "\<not> dirty_sp sp_loaded" by (simp add: sp_loaded_def)
  have nz: "\<not> (False \<or> ops_sp sp_dirty mod SaveThresholdOps (d_log 2) = 0)"
    by (simp add: sp_dirty_def d_log_def)
  have p1: "spec_persist (d_log 2) (applied (d_log 2) sp_loaded ?mus) e_log
              = Done \<lparr>registry_e = [(''x'', [1])], logged = []\<rparr>"
    by (simp add: spec_persist_def touched_def d_log_def sp_loaded_def i_ex_def e_log_def bump_def errs_def)
  have p2: "spec_persist (d_log 2) sp_dirty e_log = Done \<lparr>registry_e = [(''x'', [4])], logged = []\<rparr>"
    by (simp add: spec_persist_def d_log_def sp_dirty_def i_ex_def e_log_def errs_def)
  note R = threshold_save[OF h, of e_log]
  note A = R[THEN conjunct1]
  note B = R[THEN conjunct2, THEN conjunct1]
  note C = R[THEN conjunct2, THEN conjunct2, THEN conjunct1]
  note D = R[THEN conjunct2, THEN conjunct2, THEN conjunct2, THEN conjunct1]
  note E = R[THEN conjunct2, THEN conjunct2, THEN conjunct2, THEN conjunct2]
  from A[rule_format, of 1] n
  have A1: "mutations (d_log 2) sp_loaded (take 1 ?mus) e_log
              = Done (applied (d_log 2) sp_loaded (take 1 ?mus), e_log)" by (simp del: mutations.simps applied.simps)
  from C[rule_format] z have C1: "length ?mus = unat (SaveThresholdOps (d_log 2))" .
  from D[rule_format, of sp_dirty True e_log] dd
  have D1: "save (d_log 2) sp_dirty True e_log = spec_saved (d_log 2) sp_dirty e_log" by simp
  from D[rule_format, of sp_dirty False e_log] dd nz
  have D2: "save (d_log 2) sp_dirty False e_log = Done (sp_dirty, e_log)" by simp
  from E[rule_format, of sp_loaded True e_log] dl
  have E1: "save (d_log 2) sp_loaded True e_log = Done (sp_loaded, e_log)" .
  show ?thesis
    by (intro conjI) (fact h n[THEN conjunct1] n[THEN conjunct2] A1 B p1 z C1 dd D1 D2 p2 dl E1)+
qed

text \<open>
  C4 (amended). The claim as written fails in one part: \<open>DeleteData\<close> never removes
  the registry entry. After deleting the open object \<open>x\<close> the registry still lists
  it, while the backing file is gone.
\<close>

theorem delete_keeps_entry_counterexample:
  "map fst (cache_M (fst (snd (DeleteData ''x'' (m_dirty, w_open))))) = [''x'']
   \<and> files (snd (snd (DeleteData ''x'' (m_dirty, w_open)))) ''data/x'' = None"
  by (simp add: DeleteData_def reg_Get_def reg_store_def m_dirty_def m_ex_def fq_short_def fq_ex_def
      w_open_def w_ex_def Let_def filepath_Join_def Purge_def os_Close_def clear_def os_Remove_def
      write_back_def os_WriteAt_def files_def)

text \<open>
  C4, as amended: for an identifier whose file is open in the registry (with the
  write-back callback \<open>NewFile\<close> installs), \<open>DeleteData\<close> purges that file without
  flushing and then removes the backing file from the medium. The purge closes the
  descriptor and leaves the file with an empty page cache and write counter 0; no
  cached byte reaches the medium (every inode is as before), the calls issued are the
  \<open>Close\<close>, then whatever the emptied cache attempts, then the \<open>Remove\<close>, after which
  the path is gone. The registry entry is not removed: it refers to the purged file.
\<close>

theorem delete_open:
  assumes "map_of (cache_M m) i = Some f" and "OnEvicted (queue f) = Some (write_back (file_F f))"
  shows "files (snd (snd (DeleteData i (m, w)))) = (files w)(filepath_Join (dataPath m) i := None)
       \<and> fds (snd (snd (DeleteData i (m, w)))) = (fds w)(file_F f := None)
       \<and> inodes (snd (snd (DeleteData i (m, w)))) = inodes w
       \<and> (\<exists>cs. calls (snd (snd (DeleteData i (m, w))))
                 = calls w @ Close_call (file_F f) # cs @ [Remove_call (filepath_Join (dataPath m) i)])
       \<and> snd (snd (DeleteData i (m, w))) = snd (os_Remove (filepath_Join (dataPath m) i) (snd (Purge f w)))
       \<and> map_of (cache_M (fst (snd (DeleteData i (m, w))))) i = Some (fst (Purge f w))
       \<and> map_of (cache_M (fst (snd (DeleteData i (m, w))))) i
            = Some (f\<lparr>queue := (queue f)\<lparr>ll := []\<rparr>, ops := 0\<rparr>)"
proof -
  let ?p = "filepath_Join (dataPath m) i"
  let ?r = "(i, f) # filter (\<lambda>e. fst e \<noteq> i) (cache_M m)"
  let ?f' = "f\<lparr>queue := (queue f)\<lparr>ll := []\<rparr>, ops := 0\<rparr>"
  let ?cs = "map (\<lambda>e. WriteAt_call (file_F f) (key e) (bytes (val e))) (ll (queue f))"
  let ?w1 = "w\<lparr>fds := (fds w)(file_F f := None), calls := calls w @ Close_call (file_F f) # ?cs\<rparr>"
  have G: "reg_Get (cache_M m) i = (Some f, ?r)" using assms(1) by (simp add: reg_Get_def)
  have P: "Purge f w = (?f', ?w1)" by (rule Purge_world[OF assms(2)])
  obtain err w2 where R: "os_Remove ?p ?w1 = (err, w2)" by fastforce
  have D: "DeleteData i (m, w) = (err, (m\<lparr>cache_M := reg_store ?r i ?f'\<rparr>, w2))"
    using G P R by (simp add: DeleteData_def)
  have w2: "files w2 = (files ?w1)(?p := None)" "inodes w2 = inodes ?w1" "fds w2 = fds ?w1"
    "calls w2 = calls ?w1 @ [Remove_call ?p]"
    using os_Remove_world[of ?p ?w1] R by simp_all
  have F: "files ?w1 = files w" by (auto simp: files_def fun_eq_iff split: option.splits)
  have "map_of ?r i = Some f" by simp
  then have E: "map_of (reg_store ?r i ?f') i = Some ?f'" by (rule map_of_reg_store)
  have 1: "files (snd (snd (DeleteData i (m, w)))) = (files w)(?p := None)" using D w2(1) F by simp
  have 2: "fds (snd (snd (DeleteData i (m, w)))) = (fds w)(file_F f := None)" using D w2(3) by simp
  have 3: "inodes (snd (snd (DeleteData i (m, w)))) = inodes w" using D w2(2) by simp
  have "calls (snd (snd (DeleteData i (m, w)))) = calls w @ Close_call (file_F f) # ?cs @ [Remove_call ?p]"
    using D w2(4) by simp
  then have 4: "\<exists>cs. calls (snd (snd (DeleteData i (m, w)))) = calls w @ Close_call (file_F f) # cs @ [Remove_call ?p]"
    by blast
  have 5: "snd (snd (DeleteData i (m, w))) = snd (os_Remove ?p (snd (Purge f w)))" using D P R by simp
  have 6: "map_of (cache_M (fst (snd (DeleteData i (m, w))))) i = Some (fst (Purge f w))" using D E P by simp
  have 7: "map_of (cache_M (fst (snd (DeleteData i (m, w))))) i = Some ?f'" using D E by simp
  show ?thesis using 1 2 3 4 5 6 7 by blast
qed

text \<open>The amended C4 on the registry holding \<open>x\<close> with one unflushed page.\<close>

theorem delete_open_witness:
  "map_of (cache_M m_dirty) ''x'' = Some fq_short
   \<and> OnEvicted (queue fq_short) = Some (write_back (file_F fq_short))
   \<and> files (snd (snd (DeleteData ''x'' (m_dirty, w_open)))) ''data/x'' = None
   \<and> fds (snd (snd (DeleteData ''x'' (m_dirty, w_open)))) 3 = None
   \<and> inodes (snd (snd (DeleteData ''x'' (m_dirty, w_open)))) 1 = Some [1, 2, 3]
   \<and> map_of (cache_M (fst (snd (DeleteData ''x'' (m_dirty, w_open))))) ''x''
        = Some (fq_short\<lparr>queue := (queue fq_short)\<lparr>ll := []\<rparr>, ops := 0\<rparr>)
   \<and> ll (queue (fq_short\<lparr>queue := (queue fq_short)\<lparr>ll := []\<rparr>, ops := 0\<rparr>)) = []
   \<and> ll (queue (fst (Purge fq_short w_open))) = []"
proof -
  have h: "map_of (cache_M m_dirty) ''x'' = Some fq_short"
    "OnEvicted (queue fq_short) = Some (write_back (file_F fq_short))"
    by (simp_all add: m_dirty_def fq_short_def fq_ex_def)
  have p: "ll (queue (fst (Purge fq_short w_open))) = []"
    by (simp add: Purge_world[OF h(2)])
  from delete_open[OF h, of w_open]
  have A: "files (snd (snd (DeleteData ''x'' (m_dirty, w_open))))
             = (files w_open)(filepath_Join (dataPath m_dirty) ''x'' := None)"
    and B: "fds (snd (snd (DeleteData ''x'' (m_dirty, w_open)))) = (fds w_open)(file_F fq_short := None)"
    and C: "inodes (snd (snd (DeleteData ''x'' (m_dirty, w_open)))) = inodes w_open"
    and E: "map_of (cache_M (fst (snd (DeleteData ''x'' (m_dirty, w_open))))) ''x''
              = Some (fq_short\<lparr>queue := (queue fq_short)\<lparr>ll := []\<rparr>, ops := 0\<rparr>)"
    by blast+
  have A': "files (snd (snd (DeleteData ''x'' (m_dirty, w_open)))) ''data/x'' = None"
    unfolding A by (simp add: m_dirty_def m_ex_def filepath_Join_def)
  have B': "fds (snd (snd (DeleteData ''x'' (m_dirty, w_open)))) 3 = None"
    unfolding B by (simp add: fq_short_def fq_ex_def)
  have C': "inodes (snd (snd (DeleteData ''x'' (m_dirty, w_open)))) 1 = Some [1, 2, 3]"
    unfolding C by (simp add: w_open_def w_ex_def)
  have q: "ll (queue (fq_short\<lparr>queue := (queue fq_short)\<lparr>ll := []\<rparr>, ops := 0\<rparr>)) = []" by simp
  show ?thesis by (intro conjI) (fact h A' B' C' E q p)+
qed

text \<open>
  C5 (the code departs from it). The claim: when resolving the file for \<open>id\<close> fails,
  \<open>saveData\<close> propagates the open failure and attempts no write, never calling
  \<open>Write\<close> on a nil handle. \<open>SaveData\<close> calls \<open>f.Write\<close> before it looks at the
  error: with every open refused, resolving \<open>x\<close> yields nil and the error, and
  \<open>SaveData\<close> panics, where \<open>LoadData\<close> on the same state returns the error.
\<close>

theorem save_data_nil_panics:
  "fst (getFileFromCache ''x'' (m_ex, w_denied)) = (None, Some ErrPermission)
   \<and> SaveData ''x'' [9] 0 (m_ex, w_denied) = Panic
   \<and> fst (case LoadData ''x'' 0 0 (m_ex, w_denied) of Done r \<Rightarrow> r) = Inl ErrPermission"
  by (simp add: SaveData_def LoadData_def getFileFromCache_def reg_Get_def m_ex_def w_denied_def w_ex_def
      NewFile_def os_OpenFile_def Let_def filepath_Join_def)

text \<open>
  C6. For every sequence of \<open>Add\<close> calls on a cache of capacity \<open>c > 0\<close> that starts
  within its bound (an empty cache does), the number of resident entries after each
  call, that is after every prefix of the sequence, is at most \<open>c\<close>. With capacity 0
  the cache never evicts: the callback is never run (the environment is unchanged) and
  every key that was resident or has been added is resident.
\<close>

theorem cache_bound:
  "(0 < MaxEntries c \<and> len c \<le> MaxEntries c \<and> n \<le> length kvs \<longrightarrow>
      len (fst (Adds c (take n kvs) s)) \<le> MaxEntries c)
   \<and> (MaxEntries c = 0 \<longrightarrow>
      snd (Adds c kvs s) = s
      \<and> key ` set (ll (fst (Adds c kvs s))) = key ` set (ll c) \<union> fst ` set kvs)"
  using Adds_bound[of c "take n kvs" s] Adds_unbounded[of c kvs s] by (simp add: len_def)

text \<open>
  C6 on the empty cache of capacity 2 (three additions, one eviction) and on the empty
  cache of capacity 0 (no eviction), with a callback that counts evictions.
\<close>

theorem cache_bound_witness:
  "0 < MaxEntries ((NewLRU 2)\<lparr>OnEvicted := Some count_evictions\<rparr>)
   \<and> len ((NewLRU 2)\<lparr>OnEvicted := Some count_evictions\<rparr>)
       \<le> MaxEntries ((NewLRU 2)\<lparr>OnEvicted := Some count_evictions\<rparr>)
   \<and> 3 \<le> length kvs_ex
   \<and> len (fst (Adds ((NewLRU 2)\<lparr>OnEvicted := Some count_evictions\<rparr>) (take 3 kvs_ex) 0)) \<le> 2
   \<and> snd (Adds ((NewLRU 2)\<lparr>OnEvicted := Some count_evictions\<rparr>) (take 3 kvs_ex) 0) = 1
   \<and> MaxEntries ((NewLRU 0)\<lparr>OnEvicted := Some count_evictions\<rparr>) = 0
   \<and> snd (Adds ((NewLRU 0)\<lparr>OnEvicted := Some count_evictions\<rparr>) kvs_ex 0) = 0
   \<and> key ` set (ll (fst (Adds ((NewLRU 0)\<lparr>OnEvicted := Some count_evictions\<rparr>) kvs_ex 0))) = {0, 1, 2}"
proof -
  have e: "snd (Adds ((NewLRU 2)\<lparr>OnEvicted := Some count_evictions\<rparr>) (take 3 kvs_ex) 0) = 1"
    by (simp add: kvs_ex_def NewLRU_def Add_def removeOldest_def removeElement_def unlink_def
        clean_page_def dirty_page_def count_evictions_def Let_def)
  show ?thesis
    using cache_bound[of "(NewLRU 2)\<lparr>OnEvicted := Some count_evictions\<rparr>" 3 kvs_ex 0]
      cache_bound[of "(NewLRU 0)\<lparr>OnEvicted := Some count_evictions\<rparr>" 0 kvs_ex 0] e
    by (simp add: NewLRU_def len_def kvs_ex_def insert_commute)
qed

text \<open>
  C7. On a file whose capacity is a positive number (\<open>size\<close> not zero, and not negative
  once read as the signed \<open>MaxEntries\<close>), \<open>Write B O\<close> returns, and a \<open>Read\<close> at
  \<open>O\<close> into a buffer as long as \<open>B\<close> right after it fills the buffer with exactly
  \<open>B\<close>, reports no error and is served from the cache: the medium and the list of
  calls are the ones the write left.
\<close>

theorem read_after_write:
  assumes "size_F fq \<noteq> 0" and "0 \<le> MaxEntries (queue fq)" and "length buf = length B"
  shows "\<exists>fq1 w1 fq2. Write fq B off w = Done (fq1, w1) \<and> Read fq1 buf off w1 = (fq2, B, None, w1)"
proof -
  let ?v = "\<lparr>bytes = B, dirty = True\<rparr>"
  obtain q w1 where A: "Add (queue fq) off ?v w = (q, w1)" by fastforce
  from Add_front[OF assms(2), of ?v off w] A obtain rest
    where q: "ll q = \<lparr>key = off, val = ?v\<rparr> # rest" by auto
  let ?fq2 = "fq\<lparr>ops := ops fq + 1, queue := q\<rparr>"
  have hit: "\<exists>fq2. Read f buf off w' = (fq2, B, None, w')"
    if "map key (ll (queue f)) = off # ks" "map (\<lambda>e. bytes (val e)) (ll (queue f)) = B # bs" for f w' ks bs
  proof -
    from that obtain e es where e: "ll (queue f) = e # es" "key e = off" "bytes (val e) = B" by auto
    then show ?thesis using assms(3) by (simp add: Read_def get_def)
  qed
  show ?thesis
  proof (cases "ops ?fq2 mod size_F ?fq2 = 0")
    case False
    then have W: "Write fq B off w = Done (?fq2, w1)" using A assms(1) by (simp add: Write_def Let_def)
    have "\<exists>fq2. Read ?fq2 buf off w1 = (fq2, B, None, w1)" by (rule hit) (simp_all add: q)
    with W show ?thesis by blast
  next
    case True
    obtain fq3 err w2 where F: "Flush ?fq2 w1 = Done (fq3, err, w2)" using Flush_total[of ?fq2 w1] by auto
    then obtain q3 where L: "Flush_loop (file_F ?fq2) (keys (queue ?fq2)) (queue ?fq2) w1 = Done (q3, err, w2)"
      and fq3: "fq3 = ?fq2\<lparr>queue := q3\<rparr>"
      by (auto simp: Flush_def split: outcome.splits)
    from Flush_loop_keep[OF L] q have K: "map key (ll q3) = off # map key rest"
      "map (\<lambda>e. bytes (val e)) (ll q3) = B # map (\<lambda>e. bytes (val e)) rest" by simp_all
    have W: "Write fq B off w = Done (fq3, w2)" using A assms(1) True F by (simp add: Write_def Let_def)
    have "\<exists>fq2. Read fq3 buf off w2 = (fq2, B, None, w2)" by (rule hit) (simp_all add: fq3 K)
    with W show ?thesis by blast
  qed
qed

text \<open>C7 on the freshly opened file: write \<open>[5, 6]\<close> at offset 7, read two bytes there.\<close>

theorem read_after_write_witness:
  "size_F fq_ex \<noteq> 0 \<and> 0 \<le> MaxEntries (queue fq_ex) \<and> length [0, 0 :: byte] = length [5, 6 :: byte]
   \<and> (\<exists>fq1 w1 fq2. Write fq_ex [5, 6] 7 w_open = Done (fq1, w1)
         \<and> Read fq1 [0, 0] 7 w1 = (fq2, [5, 6], None, w1))"
  using read_after_write[of fq_ex "[0, 0]" "[5, 6]" 7 w_open] by (simp add: fq_ex_def)

text \<open>
  C8 (amended). The claim as written fails: a flush stops at the first write error and
  leaves that page dirty. With a dirty page at offset -1 the first flush reports the
  error, and the second flush issues the same positional write again.
\<close>

theorem flush_twice_counterexample:
  "Flush fq_neg w_open = Done (fq_neg, Some ErrNegativeOffset, w_neg1)
   \<and> Flush fq_neg w_neg1 = Done (fq_neg, Some ErrNegativeOffset, w_neg2)
   \<and> calls w_neg2 = calls w_neg1 @ [WriteAt_call 3 (- 1) [7]]"
  by (simp add: Flush_def fq_neg_def fq_ex_def w_neg1_def w_neg2_def w_open_def w_ex_def keys_def
      os_WriteAt_def Let_def)

text \<open>
  C8, as amended: when a flush returns without error, a second flush right after it
  issues no positional write: it returns the same file and the same medium, list of
  calls included, because the first flush cleared every entry's dirty flag while
  leaving all entries resident, in their order.
\<close>

theorem flush_twice:
  assumes "distinct (map key (ll (queue fq)))" and "Flush fq w = Done (fq1, None, w1)"
  shows "Flush fq1 w1 = Done (fq1, None, w1)
       \<and> (\<forall>e\<in>set (ll (queue fq1)). \<not> dirty (val e))
       \<and> map key (ll (queue fq1)) = map key (ll (queue fq))"
proof -
  from assms(2) obtain q1 where L: "Flush_loop (file_F fq) (keys (queue fq)) (queue fq) w = Done (q1, None, w1)"
    and fq1: "fq1 = fq\<lparr>queue := q1\<rparr>"
    by (auto simp: Flush_def split: outcome.splits)
  from Flush_loop_cleaned[OF assms(1) L] have C: "ll q1 = cleaned (set (keys (queue fq))) (ll (queue fq))" .
  have allk: "\<forall>e\<in>set (ll (queue fq)). key e \<in> set (keys (queue fq))" by (simp add: keys_def)
  have clean: "\<forall>e\<in>set (ll q1). \<not> dirty (val e)" using C allk by (auto simp: cleaned_def)
  have K: "map key (ll q1) = map key (ll (queue fq))" using C by (simp add: cleaned_def)
  have "set (keys q1) \<subseteq> key ` set (ll q1)" by (simp add: keys_def)
  from Flush_loop_clean_id[OF clean this, of "file_F fq" w1]
  have "Flush fq1 w1 = Done (fq1, None, w1)" by (simp add: Flush_def fq1)
  then show ?thesis using clean K fq1 by simp
qed

text \<open>The amended C8 on the file with one dirty page at offset 0.\<close>

theorem flush_twice_witness:
  "distinct (map key (ll (queue fq_short))) \<and> Flush fq_short w_open = Done (fq_flushed, None, w_flushed)
   \<and> Flush fq_flushed w_flushed = Done (fq_flushed, None, w_flushed)
   \<and> \<lparr>key = 0, val = \<lparr>bytes = [9], dirty = False\<rparr>\<rparr> \<in> set (ll (queue fq_flushed))
   \<and> \<not> dirty (val \<lparr>key = 0, val = \<lparr>bytes = [9], dirty = False\<rparr>\<rparr>)"
proof -
  have d: "distinct (map key (ll (queue fq_short)))" by (simp add: fq_short_def fq_ex_def)
  show ?thesis using d Flush_ex flush_twice[OF d Flush_ex] by (simp add: fq_flushed_def fq_ex_def)
qed

text \<open>
  C9 (the code departs from it). The claim: errors of the save path are logged and never
  reach the caller of a mutation, which gets exactly the result of the sketch mutation
  whether or not the save succeeded. With the repository's \<open>SaveData\<close> behind the
  proxy, a data write that fails because the file cannot be opened never comes back as
  an error to log: \<open>SaveData\<close> panics, and so does \<open>Add\<close>, although the sketch
  mutation itself returned \<open>(true, nil)\<close>. The defect is the one of C5.
\<close>

theorem add_panics_on_open_failure:
  "snd (AddMultiple (d_repo 1) (sketch sp_loaded) [[1]]) = (True, None)
   \<and> SketchProxy_Add (d_repo 1) sp_loaded [[1]] e_denied = Panic"
  by (simp add: SketchProxy_Add_def d_repo_def sp_loaded_def i_ex_def e_denied_def save_def bump_def
      Let_def log_err_def SaveData_def getFileFromCache_def reg_Get_def m_ex_def w_denied_def w_ex_def
      NewFile_def os_OpenFile_def filepath_Join_def)

text \<open>
  C10. A \<open>Read\<close> that finds a cached entry at the requested offset whose bytes are
  fewer than the buffer is long returns no error and copies nothing: the buffer is
  returned as it was, and the medium, with its list of calls, is unchanged, so no
  positional read took place.
\<close>

theorem short_hit:
  assumes "peek (queue fq) offset = Some v" and "length (bytes v) < length data"
  shows "\<exists>fq'. Read fq data offset w = (fq', data, None, w)"
  using assms by (auto simp: Read_def get_def peek_def split: option.splits)

text \<open>C10 on the file caching one byte at offset 0, read into a two-byte buffer.\<close>

theorem short_hit_witness:
  "peek (queue fq_short) 0 = Some \<lparr>bytes = [9], dirty = True\<rparr>
   \<and> length (bytes \<lparr>bytes = [9], dirty = True\<rparr>) < length [0, 0 :: byte]
   \<and> (\<exists>fq'. Read fq_short [0, 0] 0 w_open = (fq', [0, 0], None, w_open))"
  using short_hit[of fq_short 0 "\<lparr>bytes = [9], dirty = True\<rparr>" "[0, 0]" w_open]
  by (simp add: fq_short_def fq_ex_def peek_def)

end
